theory Spec2Isabelle
  imports Main
begin

section \<open>Values of the JavaScript runtime\<close>

text \<open>
  A thrown value is an error object with a name and a message. \<open>error_to_string\<close> is
  what a template literal makes of it (Error.prototype.toString).
\<close>

datatype js_error = Err string string

fun error_to_string :: "js_error \<Rightarrow> string" where
  "error_to_string (Err name msg) =
     (if name = [] then msg else if msg = [] then name else name @ '': '' @ msg)"

definition new_Error :: "string \<Rightarrow> js_error" where
  "new_Error msg = Err ''Error'' msg"

text \<open>What the engine throws when \<open>undefined\<close> is called or dereferenced.\<close>

definition TypeError :: "string \<Rightarrow> js_error" where
  "TypeError msg = Err ''TypeError'' msg"

datatype json =
    JNull
  | JBool bool
  | JNum string
  | JStr string
  | JArr "json list"
  | JObj "(string \<times> json) list"

text \<open>Property access \<open>o.k\<close> on a parsed value; a missing property is \<open>undefined\<close>.\<close>

fun get_field :: "json \<Rightarrow> string \<Rightarrow> json option" where
  "get_field (JObj kvs) k = map_of kvs k"
| "get_field _ k = None"

section \<open>The reasoning service as seen by llm.ts\<close>

record tool_call =
  tc_id :: string
  tc_name :: string
  tc_arguments :: string

text \<open>
  What a call resolves to: a string, or some other value, given by its JSON form
  (\<open>None\<close> where it has none, as \<open>undefined\<close>).
\<close>

datatype js_value = Str string | Other "json option"

record tool_output =
  tool_call_id :: string
  output_value :: js_value

record required_action =
  ra_type :: string
  tool_calls :: "tool_call list"

text \<open>
  The fields of a run that \<open>runAssistant\<close> reads. \<open>status\<close> is the string the
  service sends. \<open>last_error\<close> is the pair (code, message). \<open>incomplete_details\<close>
  holds the text \<open>JSON.stringify\<close> gives for that field.
\<close>

record run =
  run_id :: string
  status :: string
  required_action :: "required_action option"
  last_error :: "(string \<times> string) option"
  incomplete_details :: string

text \<open>A content part of a thread message: text with its value, or another type by name.\<close>

datatype content = Text string | NonText string

type_synonym message = "content list"

record message_params =
  role :: string
  content :: json

text \<open>
  The OpenAI client. Every call acts on the outside world \<open>'w\<close> and either resolves
  (\<open>Inr\<close>) or rejects (\<open>Inl\<close>). A thread handle is \<open>None\<close> where the caller passes
  \<open>undefined\<close>, and so is an assistant id.
\<close>

record 'w client =
  threads_create :: "'w \<Rightarrow> (js_error + string) \<times> 'w"
  messages_create :: "string option \<Rightarrow> message_params \<Rightarrow> 'w \<Rightarrow> (js_error + unit) \<times> 'w"
  messages_list :: "string option \<Rightarrow> 'w \<Rightarrow> (js_error + message list) \<times> 'w"
  runs_create :: "string option \<Rightarrow> string option \<Rightarrow> 'w \<Rightarrow> (js_error + run) \<times> 'w"
  runs_retrieve :: "string option \<Rightarrow> string \<Rightarrow> 'w \<Rightarrow> (js_error + run) \<times> 'w"
  runs_submitToolOutputs ::
    "string option \<Rightarrow> string \<Rightarrow> tool_output list \<Rightarrow> 'w \<Rightarrow> (js_error + run) \<times> 'w"

text \<open>
  A tool handler takes the parsed arguments, acts on the outside world and resolves to a
  string or rejects. The object \<open>tools\<close> handed to \<open>runAssistant\<close> is a plain object:
  besides the handlers that \<open>Bot\<close> registered in it, the lookup \<open>tools[name]\<close> finds
  the callable members that every object inherits (\<open>toString\<close>, \<open>constructor\<close> and
  the like), and the code calls what it finds. What the inherited members do when called
  is a parameter of the model; they may resolve to values that are not strings.
  \<open>JSON.parse\<close> is a parameter of the model as well.
\<close>

type_synonym 'w tool = "json \<Rightarrow> 'w \<Rightarrow> (js_error + string) \<times> 'w"

type_synonym 'w callable = "json \<Rightarrow> 'w \<Rightarrow> (js_error + js_value) \<times> 'w"

record 'w tools =
  registered :: "string \<rightharpoonup> 'w tool"
  inherited :: "string \<rightharpoonup> 'w callable"

text \<open>The lookup \<open>tools[name]\<close>: an own property first, then the inherited ones.\<close>

definition lookup :: "'w tools \<Rightarrow> string \<Rightarrow> 'w callable option" where
  "lookup tools name =
     (case registered tools name of
        Some handler \<Rightarrow>
          Some (\<lambda>args w. case handler args w of (r, w') \<Rightarrow> (map_sum id Str r, w'))
      | None \<Rightarrow> inherited tools name)"

type_synonym json_parse = "string \<Rightarrow> js_error + json"

text \<open>
  The calls that leave the process, in the order they are made. The list is a record of
  what the code did, kept beside the world; the code itself never reads it.
\<close>

datatype call =
    ThreadsCreate
  | MessagesCreate "string option" message_params
  | MessagesList "string option"
  | RunsCreate "string option" "string option"
  | RunsRetrieve "string option" string
  | SubmitToolOutputs "string option" string "tool_output list"
  | ToolInvoked string json
  | ChannelsFetch string
  | MessagesFetch string nat
  | UpsertChannel string bool
  | ChannelSend string string

text \<open>
  The state of the process: the outside world, the calls made so far, and the mutable
  fields of \<open>Bot\<close> and \<open>DiscordInterface\<close> that the properties are about.
\<close>

record 'w state =
  world :: 'w
  calls :: "call list"
  threadIds :: "string \<rightharpoonup> string"
  subscriberChannels :: "string list"
  activeDMChannels :: "string list"

definition perform :: "call \<Rightarrow> ('w \<Rightarrow> 'a \<times> 'w) \<Rightarrow> 'w state \<Rightarrow> 'a \<times> 'w state" where
  "perform c f s = (case f (world s) of (r, w) \<Rightarrow> (r, s\<lparr>world := w, calls := calls s @ [c]\<rparr>))"

section \<open>LLM.runAssistant (llm.ts)\<close>

text \<open>
  One tool call of a \<open>requires_action\<close> cycle: the body of the callback given to
  \<open>map\<close>. The arguments are parsed before the call is attempted, so a parse error wins
  over a missing tool; calling what is not there throws a TypeError. Whatever is thrown
  is caught and turned into the output text.
\<close>

definition tool_error_text :: "string \<Rightarrow> js_error \<Rightarrow> string" where
  "tool_error_text name e =
     ''Error occured while performing call to tool '' @ name @ '': '' @ error_to_string e"

definition not_a_function :: js_error where
  "not_a_function = TypeError ''tools[tool_call.function.name] is not a function''"

definition call_tool ::
  "json_parse \<Rightarrow> 'w tools \<Rightarrow> tool_call \<Rightarrow> 'w state \<Rightarrow> tool_output \<times> 'w state" where
  "call_tool parse tools tc s =
     (case parse (tc_arguments tc) of
        Inl e \<Rightarrow>
          (\<lparr>tool_call_id = tc_id tc,
            output_value = Str (tool_error_text (tc_name tc) e)\<rparr>, s)
      | Inr args \<Rightarrow>
          (case lookup tools (tc_name tc) of
             None \<Rightarrow>
               (\<lparr>tool_call_id = tc_id tc,
                 output_value = Str (tool_error_text (tc_name tc) not_a_function)\<rparr>, s)
           | Some handler \<Rightarrow>
               (case perform (ToolInvoked (tc_name tc) args) (handler args) s of
                  (Inr out, s') \<Rightarrow> (\<lparr>tool_call_id = tc_id tc, output_value = out\<rparr>, s')
                | (Inl e, s') \<Rightarrow>
                    (\<lparr>tool_call_id = tc_id tc,
                      output_value = Str (tool_error_text (tc_name tc) e)\<rparr>, s'))))"

text \<open>
  \<open>Promise.all\<close> over the mapped tool calls: the outputs come back in the order of the
  calls. The handlers are started in that order; the model lets each finish before the
  next starts.
\<close>

fun call_tools ::
  "json_parse \<Rightarrow> 'w tools \<Rightarrow> tool_call list \<Rightarrow> 'w state \<Rightarrow> tool_output list \<times> 'w state" where
  "call_tools parse tools [] s = ([], s)"
| "call_tools parse tools (tc # tcs) s =
     (case call_tool parse tools tc s of
        (out, s') \<Rightarrow>
          (case call_tools parse tools tcs s' of (outs, s'') \<Rightarrow> (out # outs, s'')))"

text \<open>
  The newest message of the thread and its first content part, as the \<open>completed\<close>
  branch reads them; \<open>data[0]\<close> or \<open>content[0]\<close> of an empty array is \<open>undefined\<close>
  and the next property access throws.
\<close>

definition latest_text :: "message list \<Rightarrow> js_error + string" where
  "latest_text msgs =
     (case msgs of
        [] \<Rightarrow> Inl (TypeError ''undefined is not an object'')
      | m # _ \<Rightarrow>
          (case m of
             [] \<Rightarrow> Inl (TypeError ''undefined is not an object'')
           | Text v # _ \<Rightarrow> Inr v
           | NonText ty # _ \<Rightarrow> Inl (new_Error (''Unknown message type: '' @ ty))))"

definition undefined_or :: "string option \<Rightarrow> string" where
  "undefined_or x = (case x of None \<Rightarrow> ''undefined'' | Some v \<Rightarrow> v)"

datatype poll = Continue run | Return string | Throw js_error

text \<open>One round of the \<open>while (true)\<close> loop: retrieve the run and act on its status.\<close>

definition poll_step ::
  "'w client \<Rightarrow> json_parse \<Rightarrow> 'w tools \<Rightarrow> string option \<Rightarrow> run \<Rightarrow> 'w state \<Rightarrow> poll \<times> 'w state" where
  "poll_step cl parse tools threadId r s =
     (case perform (RunsRetrieve threadId (run_id r)) (runs_retrieve cl threadId (run_id r)) s of
        (Inl e, s1) \<Rightarrow> (Throw e, s1)
      | (Inr r1, s1) \<Rightarrow>
          if status r1 = ''requires_action'' then
            (case required_action r1 of
               None \<Rightarrow> (Throw (TypeError ''null is not an object''), s1)
             | Some ra \<Rightarrow>
                 if ra_type ra = ''submit_tool_outputs'' then
                   (case call_tools parse tools (tool_calls ra) s1 of
                      (outs, s2) \<Rightarrow>
                        (case perform (SubmitToolOutputs threadId (run_id r1) outs)
                                (runs_submitToolOutputs cl threadId (run_id r1) outs) s2 of
                           (Inr r2, s3) \<Rightarrow> (Continue r2, s3)
                         | (Inl e, s3) \<Rightarrow> (Continue r1, s3)))
                 else (Continue r1, s1))
          else if status r1 = ''completed'' then
            (case perform (MessagesList threadId) (messages_list cl threadId) s1 of
               (Inl e, s2) \<Rightarrow> (Throw e, s2)
             | (Inr msgs, s2) \<Rightarrow>
                 (case latest_text msgs of
                    Inr v \<Rightarrow> (Return v, s2)
                  | Inl e \<Rightarrow> (Throw e, s2)))
          else if status r1 = ''failed'' then
            (Throw (new_Error (''Run failed with code ''
                      @ undefined_or (map_option fst (last_error r1)) @ '': ''
                      @ undefined_or (map_option snd (last_error r1)))), s1)
          else if status r1 = ''queued'' \<or> status r1 = ''in_progress'' then (Continue r1, s1)
          else if status r1 = ''incomplete'' then
            (Throw (new_Error (''Run is incomplete: '' @ incomplete_details r1)), s1)
          else (Throw (new_Error (''Unknown run status: '' @ status r1)), s1))"

text \<open>
  How a promise ends: fulfilled, rejected, or still pending when the model stops looking
  (the loop has no bound of its own; the number of polls the model follows is a
  parameter).
\<close>

datatype 'a outcome = Returned 'a | Raised js_error | Pending

fun poll_loop ::
  "nat \<Rightarrow> 'w client \<Rightarrow> json_parse \<Rightarrow> 'w tools \<Rightarrow> string option \<Rightarrow> run \<Rightarrow> 'w state
     \<Rightarrow> string outcome \<times> 'w state" where
  "poll_loop 0 cl parse tools threadId r s = (Pending, s)"
| "poll_loop (Suc n) cl parse tools threadId r s =
     (case poll_step cl parse tools threadId r s of
        (Continue r', s') \<Rightarrow> poll_loop n cl parse tools threadId r' s'
      | (Return v, s') \<Rightarrow> (Returned v, s')
      | (Throw e, s') \<Rightarrow> (Raised e, s'))"

text \<open>
  The operation that \<open>runAssistant\<close> enqueues for its thread, run when the thread's
  queue reaches it (the queue itself is the subject of a later section).
\<close>

definition runAssistant ::
  "nat \<Rightarrow> 'w client \<Rightarrow> json_parse \<Rightarrow> string option \<Rightarrow> string option \<Rightarrow> 'w tools \<Rightarrow> 'w state
     \<Rightarrow> string outcome \<times> 'w state" where
  "runAssistant n cl parse threadId assistantId tools s =
     (case perform (RunsCreate threadId assistantId) (runs_create cl threadId assistantId) s of
        (Inl e, s1) \<Rightarrow> (Raised e, s1)
      | (Inr r, s1) \<Rightarrow> poll_loop n cl parse tools threadId r s1)"

section \<open>Bot (bot.ts)\<close>

text \<open>The test \<open>if (this.threadIds[chatId])\<close>: a missing entry and the empty string are falsy.\<close>

definition truthy :: "string option \<Rightarrow> bool" where
  "truthy v = (case v of None \<Rightarrow> False | Some x \<Rightarrow> x \<noteq> [])"

text \<open>\<open>Bot.getThreadId\<close>, when nothing else runs between its check and its store.\<close>

definition getThreadId :: "'w client \<Rightarrow> string \<Rightarrow> 'w state \<Rightarrow> (js_error + string) \<times> 'w state" where
  "getThreadId cl chatId s =
     (case (if truthy (threadIds s chatId) then threadIds s chatId else None) of
        Some t \<Rightarrow> (Inr t, s)
      | None \<Rightarrow>
          (case perform ThreadsCreate (threads_create cl) s of
             (Inl e, s1) \<Rightarrow> (Inl e, s1)
           | (Inr threadId, s1) \<Rightarrow>
               (Inr threadId, s1\<lparr>threadIds := (threadIds s1)(chatId \<mapsto> threadId)\<rparr>)))"

text \<open>The operation that \<open>LLM.addMessage\<close> enqueues for its thread.\<close>

definition llm_addMessage ::
  "'w client \<Rightarrow> string \<Rightarrow> message_params \<Rightarrow> 'w state \<Rightarrow> (js_error + unit) \<times> 'w state" where
  "llm_addMessage cl threadId m s =
     perform (MessagesCreate (Some threadId) m) (messages_create cl (Some threadId) m) s"

record mock_message =
  mm_channelId :: string
  mm_channelName :: string
  mm_fromMe :: bool
  mm_content :: string
  mm_author_id :: string
  mm_author_name :: string

text \<open>
  The message sent to the thread. \<open>content\<close> holds the object that the code hands to
  \<open>JSON.stringify\<close>.
\<close>

definition message_in_chat :: "mock_message \<Rightarrow> message_params" where
  "message_in_chat m =
     \<lparr>role = (if mm_fromMe m then ''assistant'' else ''user''),
      content = JObj [(''type'', JStr ''message_in_chat''),
                      (''channel_id'', JStr (mm_channelId m)),
                      (''user_id'', JStr (mm_author_id m)),
                      (''user_name'', JStr (mm_author_name m)),
                      (''message'', JStr (mm_content m))]\<rparr>"

definition addMessage ::
  "'w client \<Rightarrow> string \<Rightarrow> mock_message \<Rightarrow> 'w state \<Rightarrow> (js_error + unit) \<times> 'w state" where
  "addMessage cl chatId m s =
     (case getThreadId cl chatId s of
        (Inl e, s1) \<Rightarrow> (Inl e, s1)
      | (Inr threadId, s1) \<Rightarrow> llm_addMessage cl threadId (message_in_chat m) s1)"

datatype message_response = Do_nothing | React "json option" | Reply "json option"

text \<open>String conversion of a parsed value inside a template literal.\<close>

fun js_string :: "json \<Rightarrow> string" and js_join :: "json list \<Rightarrow> string" where
  "js_string JNull = ''null''"
| "js_string (JBool b) = (if b then ''true'' else ''false'')"
| "js_string (JNum n) = n"
| "js_string (JStr x) = x"
| "js_string (JArr xs) = js_join xs"
| "js_string (JObj kvs) = ''[object Object]''"
| "js_join [] = []"
| "js_join [x] = (if x = JNull then [] else js_string x)"
| "js_join (x # y # ys) = (if x = JNull then [] else js_string x) @ '','' @ js_join (y # ys)"

definition decide :: "json \<Rightarrow> js_error + message_response" where
  "decide resp =
     (if resp = JNull then Inl (TypeError ''null is not an object'')
      else if get_field resp ''action'' = Some (JStr ''do_nothing'') then Inr Do_nothing
      else if get_field resp ''action'' = Some (JStr ''react'') then
        Inr (React (get_field resp ''emoji_if_action_is_react''))
      else if get_field resp ''action'' = Some (JStr ''reply'') then
        Inr (Reply (get_field resp ''content_if_action_is_reply''))
      else Inl (new_Error (''Unknown action: ''
                  @ (case get_field resp ''action'' of None \<Rightarrow> ''undefined''
                     | Some a \<Rightarrow> js_string a))))"

text \<open>
  \<open>Bot.response\<close>. The thread handle is read from \<open>threadIds\<close> as it is; then the
  promise of the assistant id is awaited (\<open>assistants\<close> gives what it settled to, a
  missing name is \<open>undefined\<close>); then the run is made and its answer parsed.
\<close>

definition response ::
  "nat \<Rightarrow> 'w client \<Rightarrow> json_parse \<Rightarrow> (string \<rightharpoonup> js_error + string) \<Rightarrow> 'w tools
     \<Rightarrow> string \<Rightarrow> string \<Rightarrow> 'w state \<Rightarrow> message_response outcome \<times> 'w state" where
  "response n cl parse assistants tools chatId assistantName s =
     (case assistants assistantName of
        Some (Inl e) \<Rightarrow> (Raised e, s)
      | a \<Rightarrow>
          (case runAssistant n cl parse (threadIds s chatId)
                  (case a of Some (Inr i) \<Rightarrow> Some i | _ \<Rightarrow> None) tools s of
             (Raised e, s1) \<Rightarrow> (Raised e, s1)
           | (Pending, s1) \<Rightarrow> (Pending, s1)
           | (Returned text, s1) \<Rightarrow>
               (case parse text of
                  Inl e \<Rightarrow> (Raised e, s1)
                | Inr resp \<Rightarrow>
                    (case decide resp of
                       Inl e \<Rightarrow> (Raised e, s1)
                     | Inr d \<Rightarrow> (Returned d, s1)))))"

section \<open>DiscordInterface (discord_interface.ts)\<close>

record discord_message =
  msg_channelId :: string
  msg_channelName :: string
  msg_authorId :: string
  msg_authorName :: string
  msg_content :: string

record channel =
  isTextBased :: bool
  isSendable :: bool

text \<open>
  The gateway and the database as the interface uses them. \<open>channels_fetch\<close> may give
  \<open>null\<close>; \<open>messages_fetch\<close> gives the messages as the gateway orders them.
  \<open>selectNextBrainteaserOfTheDay\<close> stands for the method of \<open>Bot\<close> of that name,
  which selects in the database and formats the result. Of the replies to a command only
  the text is kept.
\<close>

record 'w gateway =
  user_id :: string
  channels_fetch :: "string \<Rightarrow> 'w \<Rightarrow> (js_error + channel option) \<times> 'w"
  messages_fetch :: "string \<Rightarrow> nat \<Rightarrow> 'w \<Rightarrow> (js_error + discord_message list) \<times> 'w"
  channel_send :: "string \<Rightarrow> string \<Rightarrow> 'w \<Rightarrow> (js_error + unit) \<times> 'w"

record 'w database =
  upsertChannel :: "string \<Rightarrow> bool \<Rightarrow> 'w \<Rightarrow> (js_error + unit) \<times> 'w"
  selectNextBrainteaserOfTheDay :: "'w \<Rightarrow> (js_error + string) \<times> 'w"

definition getLastMessages ::
  "'w gateway \<Rightarrow> string \<Rightarrow> nat \<Rightarrow> 'w state \<Rightarrow> discord_message list \<times> 'w state" where
  "getLastMessages gw channelId limit s =
     (case perform (ChannelsFetch channelId) (channels_fetch gw channelId) s of
        (Inl e, s1) \<Rightarrow> ([], s1)
      | (Inr None, s1) \<Rightarrow> ([], s1)
      | (Inr (Some ch), s1) \<Rightarrow>
          if isTextBased ch then
            (case perform (MessagesFetch channelId limit) (messages_fetch gw channelId limit) s1 of
               (Inl e, s2) \<Rightarrow> ([], s2)
             | (Inr messages, s2) \<Rightarrow> (messages, s2))
          else ([], s1))"

text \<open>The \<open>MockMessage\<close> that \<open>addMessageToBotThread\<close> builds from a message.\<close>

definition mock_of :: "'w gateway \<Rightarrow> discord_message \<Rightarrow> mock_message" where
  "mock_of gw m =
     \<lparr>mm_channelId = msg_channelId m, mm_channelName = msg_channelName m,
      mm_fromMe = (msg_authorId m = user_id gw), mm_content = msg_content m,
      mm_author_id = msg_authorId m, mm_author_name = msg_authorName m\<rparr>"

definition addMessageToBotThread ::
  "'w client \<Rightarrow> 'w gateway \<Rightarrow> string \<Rightarrow> discord_message \<Rightarrow> 'w state
     \<Rightarrow> (js_error + unit) \<times> 'w state" where
  "addMessageToBotThread cl gw channelId m s = addMessage cl (msg_channelId m) (mock_of gw m) s"

text \<open>The \<open>for\<close> loop over the reversed messages; the first rejection leaves the loop.\<close>

fun replay ::
  "'w client \<Rightarrow> 'w gateway \<Rightarrow> string \<Rightarrow> discord_message list \<Rightarrow> 'w state
     \<Rightarrow> (js_error + unit) \<times> 'w state" where
  "replay cl gw channelId [] s = (Inr (), s)"
| "replay cl gw channelId (m # ms) s =
     (case addMessageToBotThread cl gw channelId m s of
        (Inl e, s1) \<Rightarrow> (Inl e, s1)
      | (Inr u, s1) \<Rightarrow> replay cl gw channelId ms s1)"

text \<open>
  \<open>activateDMChannel\<close>. An error of the replay is caught and logged; the channel is
  pushed only when the loop has finished.
\<close>

definition activateDMChannel :: "'w client \<Rightarrow> 'w gateway \<Rightarrow> string \<Rightarrow> 'w state \<Rightarrow> 'w state" where
  "activateDMChannel cl gw channelId s =
     (if channelId \<in> set (activeDMChannels s) then s
      else
        (case getLastMessages gw channelId 30 s of
           (messages, s1) \<Rightarrow>
             (case replay cl gw channelId (rev messages) s1 of
                (Inl e, s2) \<Rightarrow> s2
              | (Inr u, s2) \<Rightarrow> s2\<lparr>activeDMChannels := activeDMChannels s2 @ [channelId]\<rparr>)))"

text \<open>
  The handlers of the commands \<open>subscribe\<close> and \<open>unsubscribe\<close>; the result is the
  text of the reply.
\<close>

definition subscribe :: "'w database \<Rightarrow> string \<Rightarrow> 'w state \<Rightarrow> string \<times> 'w state" where
  "subscribe db channelId s =
     (case perform (UpsertChannel channelId True) (upsertChannel db channelId True) s of
        (Inl e, s1) \<Rightarrow>
          (''Error subscribing to Brainteaser of the Day: '' @ error_to_string e, s1)
      | (Inr u, s1) \<Rightarrow>
          (''You have subscribed to Brainteaser of the Day in this channel!'',
           s1\<lparr>subscriberChannels := subscriberChannels s1 @ [channelId]\<rparr>))"

definition unsubscribe :: "'w database \<Rightarrow> string \<Rightarrow> 'w state \<Rightarrow> string \<times> 'w state" where
  "unsubscribe db channelId s =
     (case perform (UpsertChannel channelId False) (upsertChannel db channelId False) s of
        (Inl e, s1) \<Rightarrow>
          (''Error unsubscribing from Brainteaser of the Day: '' @ error_to_string e, s1)
      | (Inr u, s1) \<Rightarrow>
          (''You have unsubscribed from Brainteaser of the Day in this channel!'',
           s1\<lparr>subscriberChannels := filter (\<lambda>i. i \<noteq> channelId) (subscriberChannels s1)\<rparr>))"

text \<open>
  The broadcast: one fetch per entry of \<open>subscriberChannels\<close>, and one send where the
  channel is sendable. A fetch that rejects or gives \<open>null\<close> sends nothing.
\<close>

definition send_to :: "'w gateway \<Rightarrow> string \<Rightarrow> string \<Rightarrow> 'w state \<Rightarrow> 'w state" where
  "send_to gw botd channelId s =
     (case perform (ChannelsFetch channelId) (channels_fetch gw channelId) s of
        (Inr (Some ch), s1) \<Rightarrow>
          if isSendable ch then snd (perform (ChannelSend channelId botd) (channel_send gw channelId botd) s1)
          else s1
      | (_, s1) \<Rightarrow> s1)"

definition broadcastBrainteaserOfTheDay :: "'w database \<Rightarrow> 'w gateway \<Rightarrow> 'w state \<Rightarrow> 'w state" where
  "broadcastBrainteaserOfTheDay db gw s =
     (case selectNextBrainteaserOfTheDay db (world s) of
        (r, w) \<Rightarrow>
          fold (send_to gw
                  (case r of Inr botd \<Rightarrow> botd
                   | Inl e \<Rightarrow> ''Error selecting next brainteaser of the day: '' @ error_to_string e))
            (subscriberChannels s) (s\<lparr>world := w\<rparr>))"

section \<open>Overlapping calls of Bot.getThreadId\<close>

text \<open>
  \<open>getThreadId\<close> checks the map, then awaits \<open>createThread\<close>, then stores. Other
  code runs during the await, so a call is two steps: \<open>Call\<close> runs it up to the await
  (or to its return, when the handle is cached), and \<open>CreateThreadSettles\<close> runs the
  rest once the service has answered. \<open>in_flight\<close> holds the calls suspended at the
  await, \<open>results\<close> what each finished call resolved to, \<open>created\<close> the number of
  \<open>createThread\<close> requests made.
\<close>

record alloc =
  handles :: "string \<rightharpoonup> string"
  in_flight :: "(nat \<times> string) list"
  results :: "nat \<rightharpoonup> js_error + string"
  created :: nat

datatype tevent = Call nat string | CreateThreadSettles nat "js_error + string"

definition alloc_init :: alloc where
  "alloc_init = \<lparr>handles = Map.empty, in_flight = [], results = Map.empty, created = 0\<rparr>"

definition known :: "alloc \<Rightarrow> nat \<Rightarrow> bool" where
  "known s c = (c \<in> fst ` set (in_flight s) \<or> results s c \<noteq> None)"

definition getThreadId_call :: "nat \<Rightarrow> string \<Rightarrow> alloc \<Rightarrow> alloc" where
  "getThreadId_call c chatId s =
     (case (if truthy (handles s chatId) then handles s chatId else None) of
        Some t \<Rightarrow> s\<lparr>results := (results s)(c \<mapsto> Inr t)\<rparr>
      | None \<Rightarrow> s\<lparr>in_flight := in_flight s @ [(c, chatId)], created := Suc (created s)\<rparr>)"

definition getThreadId_resume :: "nat \<Rightarrow> string \<Rightarrow> js_error + string \<Rightarrow> alloc \<Rightarrow> alloc" where
  "getThreadId_resume c chatId r s =
     (case r of
        Inl e \<Rightarrow>
          s\<lparr>in_flight := filter (\<lambda>p. fst p \<noteq> c) (in_flight s),
            results := (results s)(c \<mapsto> Inl e)\<rparr>
      | Inr threadId \<Rightarrow>
          s\<lparr>handles := (handles s)(chatId \<mapsto> threadId),
            in_flight := filter (\<lambda>p. fst p \<noteq> c) (in_flight s),
            results := (results s)(c \<mapsto> Inr threadId)\<rparr>)"

text \<open>An event that cannot happen in the state (a reused call id, an answer nobody awaits) gives \<open>None\<close>.\<close>

fun alloc_step :: "tevent \<Rightarrow> alloc \<Rightarrow> alloc option" where
  "alloc_step (Call c chatId) s = (if known s c then None else Some (getThreadId_call c chatId s))"
| "alloc_step (CreateThreadSettles c r) s =
     (case map_of (in_flight s) c of
        None \<Rightarrow> None
      | Some chatId \<Rightarrow> Some (getThreadId_resume c chatId r s))"

fun alloc_run :: "tevent list \<Rightarrow> alloc \<Rightarrow> alloc option" where
  "alloc_run [] s = Some s"
| "alloc_run (e # es) s = (case alloc_step e s of None \<Rightarrow> None | Some s' \<Rightarrow> alloc_run es s')"

section \<open>The operation queue of LLM (llm.ts)\<close>

text \<open>
  Operations are numbered in the order of their \<open>enqueueOperation\<close> calls;
  \<open>submitted ! i\<close> is the key of operation \<open>i\<close>. What an operation does is outside the
  queue: it is started by a worker and settles later, fulfilled or rejected.

  A worker is one run of the async function stored in \<open>processingPromise\<close>
  (lines 29 to 40). It is suspended at \<open>await operation()\<close> (\<open>Awaiting\<close>), or has left
  its loop while the rest of \<open>processQueue\<close> (lines 45 and 46) has not run yet
  (\<open>Finished\<close>), or has thrown (\<open>Crashed\<close>). \<open>processingPromise k\<close> is the worker whose
  promise is stored for \<open>k\<close>; \<open>None\<close> is \<open>undefined\<close> or \<open>null\<close>.

  \<open>delivered i\<close> is what the promise returned by \<open>enqueueOperation\<close> for operation
  \<open>i\<close> settled to. \<open>history\<close> records when operations start and end.
\<close>

datatype wstatus = Awaiting nat | Finished | Crashed

datatype qevent = QStart nat | QEnd nat "js_error + string"

record queues =
  operationQueue :: "string \<rightharpoonup> nat list"
  processingPromise :: "string \<rightharpoonup> nat"
  workers :: "nat \<rightharpoonup> string \<times> wstatus"
  next_worker :: nat
  submitted :: "string list"
  delivered :: "nat \<rightharpoonup> js_error + string"
  history :: "qevent list"

definition queues_init :: queues where
  "queues_init =
     \<lparr>operationQueue = Map.empty, processingPromise = Map.empty, workers = Map.empty,
      next_worker = 0, submitted = [], delivered = Map.empty, history = []\<rparr>"

text \<open>
  The worker's loop from its test to the next await: with an operation queued it shifts
  and starts it; with an empty queue it returns. Reading \<open>length\<close> of a missing queue
  throws.
\<close>

definition worker_loop :: "nat \<Rightarrow> string \<Rightarrow> queues \<Rightarrow> queues" where
  "worker_loop w k s =
     (case operationQueue s k of
        None \<Rightarrow> s\<lparr>workers := (workers s)(w \<mapsto> (k, Crashed))\<rparr>
      | Some [] \<Rightarrow> s\<lparr>workers := (workers s)(w \<mapsto> (k, Finished))\<rparr>
      | Some (operation # rest) \<Rightarrow>
          s\<lparr>operationQueue := (operationQueue s)(k \<mapsto> rest),
            workers := (workers s)(w \<mapsto> (k, Awaiting operation)),
            history := history s @ [QStart operation]\<rparr>)"

text \<open>
  \<open>processQueue\<close> up to its first await: with a promise stored it only waits for it;
  otherwise it starts a worker and stores the worker's promise.
\<close>

definition processQueue :: "string \<Rightarrow> queues \<Rightarrow> queues" where
  "processQueue k s =
     (case processingPromise s k of
        Some w \<Rightarrow> s
      | None \<Rightarrow>
          (let w = next_worker s;
               s1 = worker_loop w k (s\<lparr>next_worker := Suc w\<rparr>)
           in s1\<lparr>processingPromise := (processingPromise s1)(k \<mapsto> w)\<rparr>))"

definition enqueueOperation :: "string \<Rightarrow> queues \<Rightarrow> queues" where
  "enqueueOperation k s =
     processQueue k
       (s\<lparr>operationQueue :=
            (operationQueue s)(k \<mapsto> (case operationQueue s k of None \<Rightarrow> [] | Some q \<Rightarrow> q)
                                      @ [length (submitted s)]),
          submitted := submitted s @ [k]\<rparr>)"

definition started :: "queues \<Rightarrow> nat \<Rightarrow> bool" where
  "started s i = (QStart i \<in> set (history s))"

text \<open>An operation is executing from its start until it settles.\<close>

definition executing :: "queues \<Rightarrow> nat \<Rightarrow> bool" where
  "executing s i = (started s i \<and> delivered s i = None)"

text \<open>
  What can happen next: a call of \<open>enqueueOperation\<close>; an executing operation settles and
  its wrapper resolves or rejects the caller's promise; a worker whose operation has
  settled goes on with its loop; the \<open>processQueue\<close> that started a finished worker
  clears the stored promise.
\<close>

datatype event = Enqueue string | Settle nat "js_error + string" | Resume nat | Clear nat

fun step :: "event \<Rightarrow> queues \<Rightarrow> queues option" where
  "step (Enqueue k) s = Some (enqueueOperation k s)"
| "step (Settle i r) s =
     (if executing s i
      then Some (s\<lparr>delivered := (delivered s)(i \<mapsto> r), history := history s @ [QEnd i r]\<rparr>)
      else None)"
| "step (Resume w) s =
     (case workers s w of
        Some (k, Awaiting i) \<Rightarrow> if delivered s i = None then None else Some (worker_loop w k s)
      | _ \<Rightarrow> None)"
| "step (Clear w) s =
     (case workers s w of
        Some (k, Finished) \<Rightarrow>
          Some (s\<lparr>processingPromise := (processingPromise s)(k := None),
                  workers := (workers s)(w := None)\<rparr>)
      | _ \<Rightarrow> None)"

fun run_events :: "event list \<Rightarrow> queues \<Rightarrow> queues option" where
  "run_events [] s = Some s"
| "run_events (e # es) s = (case step e s of None \<Rightarrow> None | Some s' \<Rightarrow> run_events es s')"

section \<open>Notions used in the statements\<close>

text \<open>The statuses in which the loop keeps going.\<close>

definition transient_status :: "string \<Rightarrow> bool" where
  "transient_status st = (st = ''requires_action'' \<or> st = ''queued'' \<or> st = ''in_progress'')"

text \<open>
  The invocations of one cycle, in the order of the tool calls: a call whose arguments do
  not parse, or whose name the lookup does not find, invokes nothing.
\<close>

definition invocations :: "json_parse \<Rightarrow> 'w tools \<Rightarrow> tool_call list \<Rightarrow> call list" where
  "invocations parse tools tcs =
     concat (map (\<lambda>tc. case parse (tc_arguments tc) of
                          Inl e \<Rightarrow> []
                        | Inr args \<Rightarrow>
                            (case lookup tools (tc_name tc) of
                               None \<Rightarrow> []
                             | Some h \<Rightarrow> [ToolInvoked (tc_name tc) args])) tcs)"

text \<open>The fields of \<open>Bot\<close> and \<open>DiscordInterface\<close> are the same in both states.\<close>

definition unchanged :: "'w state \<Rightarrow> 'w state \<Rightarrow> bool" where
  "unchanged s t = (threadIds t = threadIds s \<and> subscriberChannels t = subscriberChannels s
                    \<and> activeDMChannels t = activeDMChannels s)"

text \<open>The messages created in threads, in the order of their creation.\<close>

definition created_messages :: "call list \<Rightarrow> message_params list" where
  "created_messages cs = concat (map (\<lambda>c. case c of MessagesCreate t m \<Rightarrow> [m] | _ \<Rightarrow> []) cs)"

text \<open>The sends of a broadcast, in their order.\<close>

definition sends :: "call list \<Rightarrow> (string \<times> string) list" where
  "sends cs = concat (map (\<lambda>c. case c of ChannelSend ch text \<Rightarrow> [(ch, text)] | _ \<Rightarrow> []) cs)"

text \<open>
  The order of starts and ends in a history: when an operation starts, every operation
  submitted earlier under the same key has ended.
\<close>

definition fifo :: "qevent list \<Rightarrow> string list \<Rightarrow> bool" where
  "fifo h sub =
     (\<forall>n j. n < length h \<and> h ! n = QStart j \<longrightarrow>
        (\<forall>i<j. sub ! i = sub ! j \<longrightarrow> (\<exists>m<n. \<exists>r. h ! m = QEnd i r)))"

text \<open>In a history, an operation ends only after its start.\<close>

definition ends_after_starts :: "qevent list \<Rightarrow> bool" where
  "ends_after_starts h =
     (\<forall>n i r. n < length h \<and> h ! n = QEnd i r \<longrightarrow> (\<exists>m<n. h ! m = QStart i))"

text \<open>
  What holds of the queues in every state the events can reach. First the part about the
  operations: a queue holds operations of its key, in rising order, none of them started;
  a submitted operation is started or queued; only submitted operations start, and at
  most once; a delivered result has its end in the history.
\<close>

definition inv_core :: "queues \<Rightarrow> bool" where
  "inv_core s =
     ((\<forall>k q. operationQueue s k = Some q \<longrightarrow>
          sorted_wrt (<) q \<and>
          (\<forall>i\<in>set q. i < length (submitted s) \<and> submitted s ! i = k \<and> \<not> started s i))
      \<and> (\<forall>i<length (submitted s).
            started s i \<or> (\<exists>q. operationQueue s (submitted s ! i) = Some q \<and> i \<in> set q))
      \<and> (\<forall>i. started s i \<longrightarrow> i < length (submitted s))
      \<and> (\<forall>i. delivered s i \<noteq> None \<longrightarrow> (\<exists>r. QEnd i r \<in> set (history s)))
      \<and> (\<forall>i. count_list (history s) (QStart i) \<le> 1)
      \<and> fifo (history s) (submitted s))"

text \<open>
  Then the part about the workers: an executing operation is awaited by a worker of its
  key, and a worker of a key is the one whose promise is stored for the key.
\<close>

definition inv_workers :: "queues \<Rightarrow> bool" where
  "inv_workers s =
     ((\<forall>i. executing s i \<longrightarrow> (\<exists>w. workers s w = Some (submitted s ! i, Awaiting i)))
      \<and> (\<forall>w k st. workers s w = Some (k, st) \<longrightarrow>
            processingPromise s k = Some w \<and> w < next_worker s))"

definition queue_inv :: "queues \<Rightarrow> bool" where
  "queue_inv s = (inv_core s \<and> inv_workers s)"

section \<open>Concrete collaborators for the examples\<close>

text \<open>
  A service that answers every poll with the same run, every submission with the same
  result and every listing with the same messages. The world counts the tool handlers that
  have run.
\<close>

definition mock_client :: "run \<Rightarrow> js_error + run \<Rightarrow> message list \<Rightarrow> nat client" where
  "mock_client r sub msgs =
     \<lparr>threads_create = (\<lambda>w. (Inr ''thread_1'', w)),
      messages_create = (\<lambda>t m w. (Inr (), w)),
      messages_list = (\<lambda>t w. (Inr msgs, w)),
      runs_create = (\<lambda>t a w. (Inr r, w)),
      runs_retrieve = (\<lambda>t i w. (Inr r, w)),
      runs_submitToolOutputs = (\<lambda>t i outs w. (sub, w))\<rparr>"

definition mock_run :: "string \<Rightarrow> run" where
  "mock_run st =
     \<lparr>run_id = ''run_1'', status = st, required_action = None,
      last_error = Some (''server_error'', ''overloaded''), incomplete_details = ''null''\<rparr>"

definition start_state :: "nat state" where
  "start_state =
     \<lparr>world = 0, calls = [], threadIds = Map.empty, subscriberChannels = [],
      activeDMChannels = []\<rparr>"

text \<open>
  A cycle of three tool calls: the first names a tool that is not registered, the handler
  of the second rejects, the third succeeds. The tools object has the two handlers and
  inherits \<open>toString\<close>, which gives the text that a plain object has as a string.
\<close>

definition mock_parse :: json_parse where
  "mock_parse x = (if x = ''{}'' then Inr (JObj []) else Inl (Err ''SyntaxError'' ''Unexpected token''))"

definition mock_tools :: "nat tools" where
  "mock_tools =
     \<lparr>registered =
        [''incrementPoints'' \<mapsto> (\<lambda>args w. (Inl (new_Error ''db down''), Suc w)),
         ''getLeaderboard'' \<mapsto> (\<lambda>args w. (Inr ''board'', Suc w))],
      inherited = [''toString'' \<mapsto> (\<lambda>args w. (Inr (Str ''[object Object]''), w))]\<rparr>"

definition mock_action :: required_action where
  "mock_action =
     \<lparr>ra_type = ''submit_tool_outputs'',
      tool_calls =
        [\<lparr>tc_id = ''call_1'', tc_name = ''lookupSolutions'', tc_arguments = ''{}''\<rparr>,
         \<lparr>tc_id = ''call_2'', tc_name = ''incrementPoints'', tc_arguments = ''{}''\<rparr>,
         \<lparr>tc_id = ''call_3'', tc_name = ''getLeaderboard'', tc_arguments = ''{}''\<rparr>]\<rparr>"

definition action_run :: run where
  "action_run = (mock_run ''requires_action'')\<lparr>required_action := Some mock_action\<rparr>"

text \<open>A cycle whose one tool call names \<open>toString\<close>, which nobody registered.\<close>

definition inherited_run :: run where
  "inherited_run =
     (mock_run ''requires_action'')
       \<lparr>required_action :=
          Some \<lparr>ra_type = ''submit_tool_outputs'',
                tool_calls =
                  [\<lparr>tc_id = ''call_1'', tc_name = ''toString'', tc_arguments = ''{}''\<rparr>]\<rparr>\<rparr>"

definition mock_assistants :: "string \<rightharpoonup> js_error + string" where
  "mock_assistants = [''moderator'' \<mapsto> Inr ''asst_1'']"

text \<open>
  A gateway whose channels are all sendable text channels with the same two messages (the
  newer one first), a database that accepts everything, and a service whose first
  \<open>createThread\<close> rejects (the world counts the attempts).
\<close>

definition mock_history :: "discord_message list" where
  "mock_history =
     [\<lparr>msg_channelId = ''dm_1'', msg_channelName = ''ada'', msg_authorId = ''user_1'',
       msg_authorName = ''ada'', msg_content = ''second''\<rparr>,
      \<lparr>msg_channelId = ''dm_1'', msg_channelName = ''ada'', msg_authorId = ''user_1'',
       msg_authorName = ''ada'', msg_content = ''first''\<rparr>]"

definition mock_gateway :: "nat gateway" where
  "mock_gateway =
     \<lparr>user_id = ''bot'',
      channels_fetch = (\<lambda>c w. (Inr (Some \<lparr>isTextBased = True, isSendable = True\<rparr>), w)),
      messages_fetch = (\<lambda>c n w. (Inr mock_history, w)),
      channel_send = (\<lambda>c t w. (Inr (), w))\<rparr>"

definition mock_database :: "nat database" where
  "mock_database =
     \<lparr>upsertChannel = (\<lambda>c b w. (Inr (), w)),
      selectNextBrainteaserOfTheDay = (\<lambda>w. (Inr ''teaser'', w))\<rparr>"

definition flaky_client :: "nat client" where
  "flaky_client =
     \<lparr>threads_create =
        (\<lambda>w. (if w = 0 then Inl (new_Error ''Connection error.'') else Inr ''thread_1'', Suc w)),
      messages_create = (\<lambda>t m w. (Inr (), w)),
      messages_list = (\<lambda>t w. (Inr [], w)),
      runs_create = (\<lambda>t a w. (Inr (mock_run ''queued''), w)),
      runs_retrieve = (\<lambda>t i w. (Inr (mock_run ''queued''), w)),
      runs_submitToolOutputs = (\<lambda>t i outs w. (Inr (mock_run ''queued''), w))\<rparr>"

text \<open>A state of the thread map in which one chat has its handle and nothing is awaited.\<close>

definition stored_state :: alloc where
  "stored_state =
     \<lparr>handles = [''channel_1'' \<mapsto> ''thread_a''], in_flight = [], results = Map.empty,
      created = 1\<rparr>"

text \<open>
  The queues after an operation has failed and the next one was enqueued before the stored
  promise was cleared.
\<close>

definition stuck_queues :: queues where
  "stuck_queues =
     \<lparr>operationQueue = [''thread_1'' \<mapsto> [1]], processingPromise = Map.empty,
      workers = Map.empty, next_worker = 1, submitted = [''thread_1'', ''thread_1''],
      delivered = [0 \<mapsto> Inl (new_Error ''Run failed'')],
      history = [QStart 0, QEnd 0 (Inl (new_Error ''Run failed''))]\<rparr>"

section \<open>Tool calls of a cycle\<close>

lemma call_tool_id: "tool_call_id (fst (call_tool parse tools tc s)) = tc_id tc"
  by (auto simp: call_tool_def perform_def split: sum.splits option.splits prod.splits)

lemma call_tool_calls:
  "calls (snd (call_tool parse tools tc s)) = calls s @ invocations parse tools [tc]"
  by (auto simp: call_tool_def invocations_def perform_def split: sum.splits option.splits prod.splits)

lemma call_tool_frame:
  "threadIds (snd (call_tool parse tools tc s)) = threadIds s"
  "subscriberChannels (snd (call_tool parse tools tc s)) = subscriberChannels s"
  "activeDMChannels (snd (call_tool parse tools tc s)) = activeDMChannels s"
  by (auto simp: call_tool_def perform_def split: sum.splits option.splits prod.splits)

lemma invocations_Cons:
  "invocations parse tools (tc # tcs) = invocations parse tools [tc] @ invocations parse tools tcs"
  by (simp add: invocations_def)

lemma call_tools_ids: "map tool_call_id (fst (call_tools parse tools tcs s)) = map tc_id tcs"
proof (induction tcs arbitrary: s)
  case Nil
  show ?case by simp
next
  case (Cons tc tcs)
  obtain out s' where a: "call_tool parse tools tc s = (out, s')" by (cases "call_tool parse tools tc s")
  obtain outs s'' where b: "call_tools parse tools tcs s' = (outs, s'')" by (cases "call_tools parse tools tcs s'")
  from a have "tool_call_id out = tc_id tc" using call_tool_id[of parse tools tc s] by simp
  moreover from b have "map tool_call_id outs = map tc_id tcs" using Cons.IH[of s'] by simp
  ultimately show ?case using a b by simp
qed

lemma call_tools_length: "length (fst (call_tools parse tools tcs s)) = length tcs"
  using arg_cong[OF call_tools_ids[of parse tools tcs s], of length] by simp

lemma call_tools_calls:
  "calls (snd (call_tools parse tools tcs s)) = calls s @ invocations parse tools tcs"
proof (induction tcs arbitrary: s)
  case Nil
  show ?case by (simp add: invocations_def)
next
  case (Cons tc tcs)
  obtain out s' where a: "call_tool parse tools tc s = (out, s')" by (cases "call_tool parse tools tc s")
  obtain outs s'' where b: "call_tools parse tools tcs s' = (outs, s'')" by (cases "call_tools parse tools tcs s'")
  from a have "calls s' = calls s @ invocations parse tools [tc]"
    using call_tool_calls[of parse tools tc s] by simp
  moreover from b have "calls s'' = calls s' @ invocations parse tools tcs" using Cons.IH[of s'] by simp
  ultimately show ?case using a b invocations_Cons[of parse tools tc tcs] by simp
qed

lemma call_tools_frame:
  "threadIds (snd (call_tools parse tools tcs s)) = threadIds s \<and>
   subscriberChannels (snd (call_tools parse tools tcs s)) = subscriberChannels s \<and>
   activeDMChannels (snd (call_tools parse tools tcs s)) = activeDMChannels s"
proof (induction tcs arbitrary: s)
  case Nil
  show ?case by simp
next
  case (Cons tc tcs)
  obtain out s' where a: "call_tool parse tools tc s = (out, s')" by (cases "call_tool parse tools tc s")
  obtain outs s'' where b: "call_tools parse tools tcs s' = (outs, s'')" by (cases "call_tools parse tools tcs s'")
  show ?case using a b Cons.IH[of s'] call_tool_frame[of parse tools tc s] by simp
qed

lemma call_tools_nth:
  "i < length tcs \<Longrightarrow>
   fst (call_tools parse tools tcs s) ! i =
     fst (call_tool parse tools (tcs ! i) (snd (call_tools parse tools (take i tcs) s)))"
proof (induction tcs arbitrary: s i)
  case Nil
  then show ?case by simp
next
  case (Cons tc tcs)
  obtain out s' where a: "call_tool parse tools tc s = (out, s')" by (cases "call_tool parse tools tc s")
  obtain outs s'' where b: "call_tools parse tools tcs s' = (outs, s'')" by (cases "call_tools parse tools tcs s'")
  show ?case
  proof (cases i)
    case 0
    then show ?thesis using a b by simp
  next
    case (Suc j)
    then have j: "j < length tcs" using Cons.prems by simp
    obtain outs' t where c: "call_tools parse tools (take j tcs) s' = (outs', t)"
      by (cases "call_tools parse tools (take j tcs) s'")
    show ?thesis using Cons.IH[OF j, of s'] a b c Suc by simp
  qed
qed

lemma call_tool_output:
  "output_value (fst (call_tool parse tools tc s)) =
     (case parse (tc_arguments tc) of
        Inl e \<Rightarrow> Str (tool_error_text (tc_name tc) e)
      | Inr args \<Rightarrow>
          (case lookup tools (tc_name tc) of
             None \<Rightarrow> Str (tool_error_text (tc_name tc) not_a_function)
           | Some h \<Rightarrow>
               (case fst (h args (world s)) of
                  Inl e \<Rightarrow> Str (tool_error_text (tc_name tc) e)
                | Inr out \<Rightarrow> out)))"
  by (auto simp: call_tool_def perform_def split: sum.splits option.splits prod.splits)


section \<open>The terminal outcome of a run\<close>

lemma poll_step_retrieved:
  assumes "runs_retrieve cl th (run_id r) (world s) = (Inr r1, w1)"
  shows "poll_step cl parse tools th r s =
     (let s1 = s\<lparr>world := w1, calls := calls s @ [RunsRetrieve th (run_id r)]\<rparr> in
          if status r1 = ''requires_action'' then
            (case required_action r1 of
               None \<Rightarrow> (Throw (TypeError ''null is not an object''), s1)
             | Some ra \<Rightarrow>
                 if ra_type ra = ''submit_tool_outputs'' then
                   (case call_tools parse tools (tool_calls ra) s1 of
                      (outs, s2) \<Rightarrow>
                        (case perform (SubmitToolOutputs th (run_id r1) outs)
                                (runs_submitToolOutputs cl th (run_id r1) outs) s2 of
                           (Inr r2, s3) \<Rightarrow> (Continue r2, s3)
                         | (Inl e, s3) \<Rightarrow> (Continue r1, s3)))
                 else (Continue r1, s1))
          else if status r1 = ''completed'' then
            (case perform (MessagesList th) (messages_list cl th) s1 of
               (Inl e, s2) \<Rightarrow> (Throw e, s2)
             | (Inr msgs, s2) \<Rightarrow>
                 (case latest_text msgs of
                    Inr v \<Rightarrow> (Return v, s2)
                  | Inl e \<Rightarrow> (Throw e, s2)))
          else if status r1 = ''failed'' then
            (Throw (new_Error (''Run failed with code ''
                      @ undefined_or (map_option fst (last_error r1)) @ '': ''
                      @ undefined_or (map_option snd (last_error r1)))), s1)
          else if status r1 = ''queued'' \<or> status r1 = ''in_progress'' then (Continue r1, s1)
          else if status r1 = ''incomplete'' then
            (Throw (new_Error (''Run is incomplete: '' @ incomplete_details r1)), s1)
          else (Throw (new_Error (''Unknown run status: '' @ status r1)), s1))"
  using assms unfolding poll_step_def perform_def Let_def by simp

text \<open>
  C5. Let a poll of the loop retrieve the run \<open>p\<close>. If its status is \<open>completed\<close>, the
  call lists the thread's messages and returns the text of the first content part of the
  newest one; it raises when that part is not text (with the part's type in the message),
  when there is no such part, or when the listing itself rejects. If the status is
  \<open>failed\<close> it raises with the code and message of \<open>last_error\<close>; if \<open>incomplete\<close>, with
  the incomplete details; any status other than the six known ones raises as unknown. So
  once the run has left \<open>queued\<close>, \<open>in_progress\<close> and \<open>requires_action\<close>, the call
  raises exactly when the run is not completed with a text answer.
\<close>

theorem runAssistant_terminal_outcome:
  assumes "runs_retrieve cl th (run_id r) (world s) = (Inr p, w')"
  shows
    "(status p = ''completed'' \<longrightarrow>
        (\<forall>v cs ms w2. messages_list cl th w' = (Inr ((Text v # cs) # ms), w2) \<longrightarrow>
           fst (poll_loop (Suc n) cl parse tools th r s) = Returned v) \<and>
        (\<forall>ty cs ms w2. messages_list cl th w' = (Inr ((NonText ty # cs) # ms), w2) \<longrightarrow>
           fst (poll_loop (Suc n) cl parse tools th r s)
             = Raised (new_Error (''Unknown message type: '' @ ty))) \<and>
        (\<forall>msgs w2. messages_list cl th w' = (Inr msgs, w2) \<longrightarrow>
           (\<forall>v cs ms. msgs \<noteq> (Text v # cs) # ms) \<longrightarrow>
           (\<exists>e. fst (poll_loop (Suc n) cl parse tools th r s) = Raised e)) \<and>
        (\<forall>e w2. messages_list cl th w' = (Inl e, w2) \<longrightarrow>
           fst (poll_loop (Suc n) cl parse tools th r s) = Raised e) \<and>
        calls (snd (poll_loop (Suc n) cl parse tools th r s)) =
          calls s @ [RunsRetrieve th (run_id r), MessagesList th])
     \<and> (status p = ''failed'' \<longrightarrow>
          fst (poll_loop (Suc n) cl parse tools th r s) =
            Raised (new_Error (''Run failed with code ''
                      @ undefined_or (map_option fst (last_error p)) @ '': ''
                      @ undefined_or (map_option snd (last_error p)))))
     \<and> (status p = ''incomplete'' \<longrightarrow>
          fst (poll_loop (Suc n) cl parse tools th r s) =
            Raised (new_Error (''Run is incomplete: '' @ incomplete_details p)))
     \<and> (\<not> transient_status (status p) \<and> status p \<noteq> ''completed''
          \<and> status p \<noteq> ''failed'' \<and> status p \<noteq> ''incomplete'' \<longrightarrow>
          fst (poll_loop (Suc n) cl parse tools th r s) =
            Raised (new_Error (''Unknown run status: '' @ status p)))
     \<and> (\<not> transient_status (status p) \<longrightarrow>
          ((\<exists>e. fst (poll_loop (Suc n) cl parse tools th r s) = Raised e) \<longleftrightarrow>
             \<not> (status p = ''completed'' \<and>
                (\<exists>v cs ms w2. messages_list cl th w' = (Inr ((Text v # cs) # ms), w2)))))"
  unfolding poll_loop.simps poll_step_retrieved[OF assms] Let_def transient_status_def
  by (auto simp: perform_def latest_text_def
           split: prod.splits sum.splits list.splits content.splits)

theorem runAssistant_terminal_outcome_witness:
  "fst (poll_loop (Suc 0) (mock_client (mock_run ''failed'') (Inr (mock_run ''failed'')) [])
          (\<lambda>x. Inr JNull) mock_tools (Some ''thread_1'') (mock_run ''queued'') start_state)
     = Raised (new_Error ''Run failed with code server_error: overloaded'')
   \<and> fst (poll_loop (Suc 0)
          (mock_client (mock_run ''completed'') (Inr (mock_run ''failed'')) [[Text ''4'']])
          (\<lambda>x. Inr JNull) mock_tools (Some ''thread_1'') (mock_run ''queued'') start_state)
     = Returned ''4''
   \<and> fst (poll_loop (Suc 0) (mock_client (mock_run ''expired'') (Inr (mock_run ''failed'')) [])
          (\<lambda>x. Inr JNull) mock_tools (Some ''thread_1'') (mock_run ''queued'') start_state)
     = Raised (new_Error ''Unknown run status: expired'')"
  using
    runAssistant_terminal_outcome[where cl = "mock_client (mock_run ''failed'') (Inr (mock_run ''failed'')) []"
      and p = "mock_run ''failed''" and w' = 0 and n = 0 and parse = "\<lambda>x. Inr JNull"
      and tools = mock_tools and th = "Some ''thread_1''" and r = "mock_run ''queued''"
      and s = start_state]
    runAssistant_terminal_outcome[where
      cl = "mock_client (mock_run ''completed'') (Inr (mock_run ''failed'')) [[Text ''4'']]"
      and p = "mock_run ''completed''" and w' = 0 and n = 0 and parse = "\<lambda>x. Inr JNull"
      and tools = mock_tools and th = "Some ''thread_1''" and r = "mock_run ''queued''"
      and s = start_state]
    runAssistant_terminal_outcome[where cl = "mock_client (mock_run ''expired'') (Inr (mock_run ''failed'')) []"
      and p = "mock_run ''expired''" and w' = 0 and n = 0 and parse = "\<lambda>x. Inr JNull"
      and tools = mock_tools and th = "Some ''thread_1''" and r = "mock_run ''queued''"
      and s = start_state]
  by (simp add: mock_run_def mock_client_def transient_status_def undefined_or_def start_state_def)

section \<open>A cycle of tool calls\<close>

lemma poll_step_requires_action:
  assumes "runs_retrieve cl th (run_id r) (world s) = (Inr p, w')"
    and "status p = ''requires_action''"
    and "required_action p = Some ra"
    and "ra_type ra = ''submit_tool_outputs''"
  shows
    "\<exists>outs.
       calls (snd (poll_step cl parse tools th r s)) =
         calls s @ [RunsRetrieve th (run_id r)] @ invocations parse tools (tool_calls ra)
           @ [SubmitToolOutputs th (run_id p) outs]
     \<and> length outs = length (tool_calls ra)
     \<and> map tool_call_id outs = map tc_id (tool_calls ra)
     \<and> (\<forall>i < length (tool_calls ra).
          output_value (outs ! i) =
            (case parse (tc_arguments (tool_calls ra ! i)) of
               Inl e \<Rightarrow> Str (tool_error_text (tc_name (tool_calls ra ! i)) e)
             | Inr args \<Rightarrow>
                 (case lookup tools (tc_name (tool_calls ra ! i)) of
                    None \<Rightarrow> Str (tool_error_text (tc_name (tool_calls ra ! i)) not_a_function)
                  | Some h \<Rightarrow>
                      (case fst (h args (world (snd (call_tools parse tools
                                   (take i (tool_calls ra))
                                   (s\<lparr>world := w',
                                      calls := calls s @ [RunsRetrieve th (run_id r)]\<rparr>))))) of
                         Inl e \<Rightarrow> Str (tool_error_text (tc_name (tool_calls ra ! i)) e)
                       | Inr out \<Rightarrow> out))))
     \<and> (\<exists>r'. fst (poll_step cl parse tools th r s) = Continue r')"
proof -
  define s1 where "s1 = s\<lparr>world := w', calls := calls s @ [RunsRetrieve th (run_id r)]\<rparr>"
  obtain outs t where ct: "call_tools parse tools (tool_calls ra) s1 = (outs, t)"
    by (cases "call_tools parse tools (tool_calls ra) s1")
  obtain res wa where sub: "runs_submitToolOutputs cl th (run_id p) outs (world t) = (res, wa)"
    by (cases "runs_submitToolOutputs cl th (run_id p) outs (world t)")
  have step: "poll_step cl parse tools th r s =
      (case res of Inr r2 \<Rightarrow> Continue r2 | Inl e \<Rightarrow> Continue p,
       t\<lparr>world := wa, calls := calls t @ [SubmitToolOutputs th (run_id p) outs]\<rparr>)"
    using assms(2-4) ct sub unfolding poll_step_retrieved[OF assms(1)] Let_def s1_def[symmetric]
    by (simp add: perform_def split: sum.splits)
  have c: "calls t = calls s1 @ invocations parse tools (tool_calls ra)"
    using call_tools_calls[of parse tools "tool_calls ra" s1] ct by simp
  have l: "length outs = length (tool_calls ra)"
    using call_tools_length[of parse tools "tool_calls ra" s1] ct by simp
  have m: "map tool_call_id outs = map tc_id (tool_calls ra)"
    using call_tools_ids[of parse tools "tool_calls ra" s1] ct by simp
  have n: "\<forall>i < length (tool_calls ra). outs ! i =
      fst (call_tool parse tools (tool_calls ra ! i)
             (snd (call_tools parse tools (take i (tool_calls ra)) s1)))"
    using call_tools_nth[of _ "tool_calls ra" parse tools s1] ct by simp
  have "calls (snd (poll_step cl parse tools th r s)) =
         calls s @ [RunsRetrieve th (run_id r)] @ invocations parse tools (tool_calls ra)
           @ [SubmitToolOutputs th (run_id p) outs]"
    using step c by (simp add: s1_def)
  moreover have "\<exists>r'. fst (poll_step cl parse tools th r s) = Continue r'"
    using step by (cases res) simp_all
  ultimately show ?thesis
    using l m n unfolding s1_def[symmetric] by (intro exI[of _ outs]) (simp add: call_tool_output)
qed

lemma call_output_cases:
  assumes "out =
            (case parse (tc_arguments tc) of
               Inl e \<Rightarrow> Str (tool_error_text (tc_name tc) e)
             | Inr args \<Rightarrow>
                 (case lookup tools (tc_name tc) of
                    None \<Rightarrow> Str (tool_error_text (tc_name tc) not_a_function)
                  | Some h \<Rightarrow>
                      (case fst (h args w) of
                         Inl e \<Rightarrow> Str (tool_error_text (tc_name tc) e)
                       | Inr v \<Rightarrow> v)))"
  shows "(\<forall>n m. parse (tc_arguments tc) = Inl (Err n m) \<longrightarrow>
             out = Str (''Error occured while performing call to tool '' @ tc_name tc @ '': ''
                    @ (if n = [] then m else if m = [] then n else n @ '': '' @ m)))"
    and "(\<forall>args. parse (tc_arguments tc) = Inr args
                \<and> registered tools (tc_name tc) = None
                \<and> inherited tools (tc_name tc) = None \<longrightarrow>
             out = Str (''Error occured while performing call to tool '' @ tc_name tc
                    @ '': TypeError: tools[tool_call.function.name] is not a function''))"
    and "(\<forall>args h res w''. parse (tc_arguments tc) = Inr args
                \<and> registered tools (tc_name tc) = Some h
                \<and> h args w = (res, w'') \<longrightarrow>
             out = (case res of
                  Inr v \<Rightarrow> Str v
                | Inl (Err n m) \<Rightarrow>
                    Str (''Error occured while performing call to tool '' @ tc_name tc @ '': ''
                         @ (if n = [] then m else if m = [] then n else n @ '': '' @ m))))"
    and "(\<forall>args f res w''. parse (tc_arguments tc) = Inr args
                \<and> registered tools (tc_name tc) = None
                \<and> inherited tools (tc_name tc) = Some f
                \<and> f args w = (res, w'') \<longrightarrow>
             out = (case res of
                  Inr v \<Rightarrow> v
                | Inl (Err n m) \<Rightarrow>
                    Str (''Error occured while performing call to tool '' @ tc_name tc @ '': ''
                         @ (if n = [] then m else if m = [] then n else n @ '': '' @ m))))"
proof -
  show "(\<forall>n m. parse (tc_arguments tc) = Inl (Err n m) \<longrightarrow>
             out = Str (''Error occured while performing call to tool '' @ tc_name tc @ '': ''
                    @ (if n = [] then m else if m = [] then n else n @ '': '' @ m)))"
    unfolding assms by (simp add: tool_error_text_def)
  show "(\<forall>args. parse (tc_arguments tc) = Inr args
                \<and> registered tools (tc_name tc) = None
                \<and> inherited tools (tc_name tc) = None \<longrightarrow>
             out = Str (''Error occured while performing call to tool '' @ tc_name tc
                    @ '': TypeError: tools[tool_call.function.name] is not a function''))"
    unfolding assms
    by (simp add: lookup_def tool_error_text_def not_a_function_def TypeError_def)
  show "(\<forall>args h res w''. parse (tc_arguments tc) = Inr args
                \<and> registered tools (tc_name tc) = Some h
                \<and> h args w = (res, w'') \<longrightarrow>
             out = (case res of
                  Inr v \<Rightarrow> Str v
                | Inl (Err n m) \<Rightarrow>
                    Str (''Error occured while performing call to tool '' @ tc_name tc @ '': ''
                         @ (if n = [] then m else if m = [] then n else n @ '': '' @ m))))"
    unfolding assms
  proof (intro allI impI, elim conjE)
    fix args h res w''
    assume p: "parse (tc_arguments tc) = Inr args" "registered tools (tc_name tc) = Some h"
      "h args w = (res, w'')"
    show "(case parse (tc_arguments tc) of
               Inl e \<Rightarrow> Str (tool_error_text (tc_name tc) e)
             | Inr args \<Rightarrow>
                 (case lookup tools (tc_name tc) of
                    None \<Rightarrow> Str (tool_error_text (tc_name tc) not_a_function)
                  | Some h \<Rightarrow>
                      (case fst (h args w) of
                         Inl e \<Rightarrow> Str (tool_error_text (tc_name tc) e)
                       | Inr v \<Rightarrow> v))) =
          (case res of
                  Inr v \<Rightarrow> Str v
                | Inl (Err n m) \<Rightarrow>
                    Str (''Error occured while performing call to tool '' @ tc_name tc @ '': ''
                         @ (if n = [] then m else if m = [] then n else n @ '': '' @ m)))"
    proof (cases res)
      case (Inl e)
      then show ?thesis using p by (cases e) (simp add: lookup_def tool_error_text_def)
    next
      case (Inr v)
      then show ?thesis using p by (simp add: lookup_def)
    qed
  qed
  show "(\<forall>args f res w''. parse (tc_arguments tc) = Inr args
                \<and> registered tools (tc_name tc) = None
                \<and> inherited tools (tc_name tc) = Some f
                \<and> f args w = (res, w'') \<longrightarrow>
             out = (case res of
                  Inr v \<Rightarrow> v
                | Inl (Err n m) \<Rightarrow>
                    Str (''Error occured while performing call to tool '' @ tc_name tc @ '': ''
                         @ (if n = [] then m else if m = [] then n else n @ '': '' @ m))))"
    unfolding assms
  proof (intro allI impI, elim conjE)
    fix args f res w''
    assume p: "parse (tc_arguments tc) = Inr args" "registered tools (tc_name tc) = None"
      "inherited tools (tc_name tc) = Some f" "f args w = (res, w'')"
    show "(case parse (tc_arguments tc) of
               Inl e \<Rightarrow> Str (tool_error_text (tc_name tc) e)
             | Inr args \<Rightarrow>
                 (case lookup tools (tc_name tc) of
                    None \<Rightarrow> Str (tool_error_text (tc_name tc) not_a_function)
                  | Some h \<Rightarrow>
                      (case fst (h args w) of
                         Inl e \<Rightarrow> Str (tool_error_text (tc_name tc) e)
                       | Inr v \<Rightarrow> v))) =
          (case res of
                  Inr v \<Rightarrow> v
                | Inl (Err n m) \<Rightarrow>
                    Str (''Error occured while performing call to tool '' @ tc_name tc @ '': ''
                         @ (if n = [] then m else if m = [] then n else n @ '': '' @ m)))"
    proof (cases res)
      case (Inl e)
      then show ?thesis using p by (cases e) (simp add: lookup_def tool_error_text_def)
    next
      case (Inr v)
      then show ?thesis using p by (simp add: lookup_def)
    qed
  qed
qed


text \<open>
  C2, as amended. Let a poll retrieve a run in \<open>requires_action\<close> that asks for the
  outputs of k tool calls. Then this round of the loop makes, after the invocations,
  exactly one submission, and its batch has k outputs whose ids are the ids of the tool
  calls in their order; the round ends by continuing the loop, never by raising. The
  output of a call is the text \<open>Error occured while performing call to tool\<close>, the
  tool's name, a colon and the error (its name, a colon, its message) when the arguments
  do not parse, when the name is neither registered nor inherited by the tools object (the
  error is then a TypeError), or when what was called raises. A registered handler that
  resolves gives its string as the output. A name that is not registered but inherited is
  called as well, and what it resolves to is the output: no error text.
\<close>

theorem requires_action_cycle:
  assumes "runs_retrieve cl th (run_id r) (world s) = (Inr p, w')"
    and "status p = ''requires_action''"
    and "required_action p = Some ra"
    and "ra_type ra = ''submit_tool_outputs''"
  shows
    "\<exists>outs.
       calls (snd (poll_step cl parse tools th r s)) =
         calls s @ [RunsRetrieve th (run_id r)] @ invocations parse tools (tool_calls ra)
           @ [SubmitToolOutputs th (run_id p) outs]
     \<and> length outs = length (tool_calls ra)
     \<and> map tool_call_id outs = map tc_id (tool_calls ra)
     \<and> (\<exists>r'. fst (poll_step cl parse tools th r s) = Continue r')
     \<and> (\<forall>i < length (tool_calls ra).
          (\<forall>n m. parse (tc_arguments (tool_calls ra ! i)) = Inl (Err n m) \<longrightarrow>
             output_value (outs ! i) =
               Str (''Error occured while performing call to tool ''
                    @ tc_name (tool_calls ra ! i) @ '': ''
                    @ (if n = [] then m else if m = [] then n else n @ '': '' @ m)))
        \<and> (\<forall>args. parse (tc_arguments (tool_calls ra ! i)) = Inr args
                \<and> registered tools (tc_name (tool_calls ra ! i)) = None
                \<and> inherited tools (tc_name (tool_calls ra ! i)) = None \<longrightarrow>
             output_value (outs ! i) =
               Str (''Error occured while performing call to tool ''
                    @ tc_name (tool_calls ra ! i)
                    @ '': TypeError: tools[tool_call.function.name] is not a function''))
        \<and> (\<forall>args h res w''. parse (tc_arguments (tool_calls ra ! i)) = Inr args
                \<and> registered tools (tc_name (tool_calls ra ! i)) = Some h
                \<and> h args (world (snd (call_tools parse tools (take i (tool_calls ra))
                            (s\<lparr>world := w',
                               calls := calls s @ [RunsRetrieve th (run_id r)]\<rparr>))))
                    = (res, w'') \<longrightarrow>
             output_value (outs ! i) =
               (case res of
                  Inr v \<Rightarrow> Str v
                | Inl (Err n m) \<Rightarrow>
                    Str (''Error occured while performing call to tool ''
                         @ tc_name (tool_calls ra ! i) @ '': ''
                         @ (if n = [] then m else if m = [] then n else n @ '': '' @ m))))
        \<and> (\<forall>args f res w''. parse (tc_arguments (tool_calls ra ! i)) = Inr args
                \<and> registered tools (tc_name (tool_calls ra ! i)) = None
                \<and> inherited tools (tc_name (tool_calls ra ! i)) = Some f
                \<and> f args (world (snd (call_tools parse tools (take i (tool_calls ra))
                            (s\<lparr>world := w',
                               calls := calls s @ [RunsRetrieve th (run_id r)]\<rparr>))))
                    = (res, w'') \<longrightarrow>
             output_value (outs ! i) =
               (case res of
                  Inr v \<Rightarrow> v
                | Inl (Err n m) \<Rightarrow>
                    Str (''Error occured while performing call to tool ''
                         @ tc_name (tool_calls ra ! i) @ '': ''
                         @ (if n = [] then m else if m = [] then n else n @ '': '' @ m)))))"
proof -
  obtain outs where
    a: "calls (snd (poll_step cl parse tools th r s)) =
         calls s @ [RunsRetrieve th (run_id r)] @ invocations parse tools (tool_calls ra)
           @ [SubmitToolOutputs th (run_id p) outs]"
    and b: "length outs = length (tool_calls ra)"
    and c: "map tool_call_id outs = map tc_id (tool_calls ra)"
    and d: "\<forall>i < length (tool_calls ra).
          output_value (outs ! i) =
            (case parse (tc_arguments (tool_calls ra ! i)) of
               Inl e \<Rightarrow> Str (tool_error_text (tc_name (tool_calls ra ! i)) e)
             | Inr args \<Rightarrow>
                 (case lookup tools (tc_name (tool_calls ra ! i)) of
                    None \<Rightarrow> Str (tool_error_text (tc_name (tool_calls ra ! i)) not_a_function)
                  | Some h \<Rightarrow>
                      (case fst (h args (world (snd (call_tools parse tools
                                   (take i (tool_calls ra))
                                   (s\<lparr>world := w',
                                      calls := calls s @ [RunsRetrieve th (run_id r)]\<rparr>))))) of
                         Inl e \<Rightarrow> Str (tool_error_text (tc_name (tool_calls ra ! i)) e)
                       | Inr out \<Rightarrow> out)))"
    and e: "\<exists>r'. fst (poll_step cl parse tools th r s) = Continue r'"
    using poll_step_requires_action[OF assms, of parse tools] by blast
  show ?thesis
  proof (intro exI[of _ outs] conjI, goal_cases)
    case 1
    show ?case by (fact a)
  next
    case 2
    show ?case by (fact b)
  next
    case 3
    show ?case by (fact c)
  next
    case 4
    show ?case by (fact e)
  next
    case 5
    show ?case
    proof (intro allI impI, goal_cases)
      case (1 i)
      note k = call_output_cases[where out = "output_value (outs ! i)" and parse = parse
          and tools = tools and tc = "tool_calls ra ! i"
          and w = "world (snd (call_tools parse tools (take i (tool_calls ra))
                     (s\<lparr>world := w', calls := calls s @ [RunsRetrieve th (run_id r)]\<rparr>)))",
          OF d[rule_format, OF 1]]
      show ?case by (intro conjI) (fact k(1), fact k(2), fact k(3), fact k(4))
    qed
  qed
qed

theorem requires_action_cycle_counterexample:
  "registered mock_tools ''toString'' = None
   \<and> status inherited_run = ''requires_action''
   \<and> poll_step (mock_client inherited_run (Inr (mock_run ''queued'')) []) mock_parse mock_tools
        (Some ''thread_1'') (mock_run ''queued'') start_state =
      (Continue (mock_run ''queued''),
       start_state\<lparr>calls :=
         [RunsRetrieve (Some ''thread_1'') ''run_1'',
          ToolInvoked ''toString'' (JObj []),
          SubmitToolOutputs (Some ''thread_1'') ''run_1''
            [\<lparr>tool_call_id = ''call_1'', output_value = Str ''[object Object]''\<rparr>]]\<rparr>)"
  by (simp add: poll_step_def perform_def mock_client_def inherited_run_def mock_run_def
        call_tool_def mock_parse_def mock_tools_def lookup_def start_state_def)


text \<open>
  C9. Let the submission of a cycle's outputs reject. Then that round of the loop continues
  with the run it had retrieved and the error goes nowhere. If the next poll finds the run
  in \<open>requires_action\<close> with the same tool calls, the second round invokes every
  handler of the cycle again and submits again: after two rounds the loop is still
  running and the calls made are the retrieval, the invocations and the submission, twice.
\<close>

theorem submit_failure_repolls:
  assumes "runs_retrieve cl th (run_id r) (world s) = (Inr p, w')"
    and "status p = ''requires_action''"
    and "required_action p = Some ra"
    and "ra_type ra = ''submit_tool_outputs''"
    and "call_tools parse tools (tool_calls ra)
           (s\<lparr>world := w', calls := calls s @ [RunsRetrieve th (run_id r)]\<rparr>) = (outs, t)"
    and "runs_submitToolOutputs cl th (run_id p) outs (world t) = (Inl e, wa)"
    and "runs_retrieve cl th (run_id p) wa = (Inr q, wb)"
    and "status q = ''requires_action''"
    and "required_action q = Some ra"
  shows
    "poll_step cl parse tools th r s =
       (Continue p, t\<lparr>world := wa, calls := calls t @ [SubmitToolOutputs th (run_id p) outs]\<rparr>)
     \<and> (\<exists>outs' r' t'.
          poll_loop (Suc (Suc n)) cl parse tools th r s = poll_loop n cl parse tools th r' t'
          \<and> calls t' =
              calls s @ [RunsRetrieve th (run_id r)] @ invocations parse tools (tool_calls ra)
                @ [SubmitToolOutputs th (run_id p) outs]
                @ [RunsRetrieve th (run_id p)] @ invocations parse tools (tool_calls ra)
                @ [SubmitToolOutputs th (run_id q) outs'])"
proof -
  define t1 where "t1 = t\<lparr>world := wa, calls := calls t @ [SubmitToolOutputs th (run_id p) outs]\<rparr>"
  have first: "poll_step cl parse tools th r s = (Continue p, t1)"
    using assms(2-6) unfolding poll_step_retrieved[OF assms(1)] Let_def t1_def
    by (simp add: perform_def)
  have ct: "calls t = calls s @ [RunsRetrieve th (run_id r)] @ invocations parse tools (tool_calls ra)"
    using call_tools_calls[of parse tools "tool_calls ra"
            "s\<lparr>world := w', calls := calls s @ [RunsRetrieve th (run_id r)]\<rparr>"] assms(5)
    by simp
  have r2: "runs_retrieve cl th (run_id p) (world t1) = (Inr q, wb)"
    using assms(7) by (simp add: t1_def)
  obtain outs' where
    c2: "calls (snd (poll_step cl parse tools th p t1)) =
           calls t1 @ [RunsRetrieve th (run_id p)] @ invocations parse tools (tool_calls ra)
             @ [SubmitToolOutputs th (run_id q) outs']"
    and "\<exists>r'. fst (poll_step cl parse tools th p t1) = Continue r'"
    using poll_step_requires_action[OF r2 assms(8) assms(9) assms(4), of parse tools] by blast
  then obtain r' where k: "fst (poll_step cl parse tools th p t1) = Continue r'" by blast
  obtain t' where second: "poll_step cl parse tools th p t1 = (Continue r', t')"
    using k by (cases "poll_step cl parse tools th p t1") simp
  have "poll_loop (Suc (Suc n)) cl parse tools th r s = poll_loop n cl parse tools th r' t'"
    using first second by simp
  moreover have "calls t' =
              calls s @ [RunsRetrieve th (run_id r)] @ invocations parse tools (tool_calls ra)
                @ [SubmitToolOutputs th (run_id p) outs]
                @ [RunsRetrieve th (run_id p)] @ invocations parse tools (tool_calls ra)
                @ [SubmitToolOutputs th (run_id q) outs']"
    using c2 second ct by (simp add: t1_def)
  ultimately show ?thesis using first unfolding t1_def by blast
qed

lemma mock_cycle_example:
  "poll_step (mock_client action_run (Inl (new_Error ''Connection error.'')) []) mock_parse mock_tools
      (Some ''thread_1'') (mock_run ''queued'') start_state =
   (Continue action_run,
    start_state\<lparr>world := 2,
      calls :=
        [RunsRetrieve (Some ''thread_1'') ''run_1'',
         ToolInvoked ''incrementPoints'' (JObj []),
         ToolInvoked ''getLeaderboard'' (JObj []),
         SubmitToolOutputs (Some ''thread_1'') ''run_1''
           [\<lparr>tool_call_id = ''call_1'',
              output_value = Str ''Error occured while performing call to tool lookupSolutions: TypeError: tools[tool_call.function.name] is not a function''\<rparr>,
            \<lparr>tool_call_id = ''call_2'',
              output_value = Str ''Error occured while performing call to tool incrementPoints: Error: db down''\<rparr>,
            \<lparr>tool_call_id = ''call_3'', output_value = Str ''board''\<rparr>]]\<rparr>)"
  by (simp add: poll_step_def perform_def mock_client_def action_run_def mock_run_def
        mock_action_def call_tool_def mock_parse_def mock_tools_def lookup_def
        tool_error_text_def not_a_function_def TypeError_def new_Error_def start_state_def)

theorem requires_action_cycle_witness:
  "status action_run = ''requires_action'' \<and> required_action action_run = Some mock_action
   \<and> ra_type mock_action = ''submit_tool_outputs'' \<and> length (tool_calls mock_action) = 3
   \<and> (\<exists>outs.
        calls (snd (poll_step (mock_client action_run (Inl (new_Error ''Connection error.'')) [])
                      mock_parse mock_tools (Some ''thread_1'') (mock_run ''queued'') start_state)) =
          [RunsRetrieve (Some ''thread_1'') ''run_1'',
           ToolInvoked ''incrementPoints'' (JObj []),
           ToolInvoked ''getLeaderboard'' (JObj []),
           SubmitToolOutputs (Some ''thread_1'') ''run_1'' outs]
        \<and> length outs = 3
        \<and> map tool_call_id outs = [''call_1'', ''call_2'', ''call_3'']
        \<and> output_value (outs ! 0) =
            Str ''Error occured while performing call to tool lookupSolutions: TypeError: tools[tool_call.function.name] is not a function''
        \<and> output_value (outs ! 1) =
            Str ''Error occured while performing call to tool incrementPoints: Error: db down''
        \<and> output_value (outs ! 2) = Str ''board'')"
proof -
  let ?cl = "mock_client action_run (Inl (new_Error ''Connection error.'')) []"
  let ?s1 = "start_state\<lparr>world := 0,
               calls := calls start_state
                 @ [RunsRetrieve (Some ''thread_1'') (run_id (mock_run ''queued''))]\<rparr>"
  have h1: "runs_retrieve ?cl (Some ''thread_1'') (run_id (mock_run ''queued'')) (world start_state)
              = (Inr action_run, 0)"
    by (simp add: mock_client_def start_state_def)
  have h2: "status action_run = ''requires_action''"
    by (simp add: action_run_def mock_run_def)
  have h3: "required_action action_run = Some mock_action"
    by (simp add: action_run_def)
  have h4: "ra_type mock_action = ''submit_tool_outputs''"
    by (simp add: mock_action_def)
  have len: "length (tool_calls mock_action) = 3"
    by (simp add: mock_action_def)
  have w1: "world (snd (call_tools mock_parse mock_tools (take 1 (tool_calls mock_action)) ?s1)) = 0"
    by (simp add: mock_action_def call_tool_def mock_parse_def mock_tools_def lookup_def)
  have w2: "world (snd (call_tools mock_parse mock_tools (take 2 (tool_calls mock_action)) ?s1)) = 1"
    by (simp add: mock_action_def call_tool_def mock_parse_def mock_tools_def lookup_def
          perform_def numeral_2_eq_2)
  from requires_action_cycle[OF h1 h2 h3 h4, of mock_parse mock_tools]
  obtain outs where
    k: "calls (snd (poll_step ?cl mock_parse mock_tools (Some ''thread_1'') (mock_run ''queued'') start_state)) =
         calls start_state @ [RunsRetrieve (Some ''thread_1'') (run_id (mock_run ''queued''))] @ invocations mock_parse mock_tools (tool_calls mock_action)
           @ [SubmitToolOutputs (Some ''thread_1'') (run_id action_run) outs]
     \<and> length outs = length (tool_calls mock_action)
     \<and> map tool_call_id outs = map tc_id (tool_calls mock_action)
     \<and> (\<exists>r'. fst (poll_step ?cl mock_parse mock_tools (Some ''thread_1'') (mock_run ''queued'') start_state) = Continue r')
     \<and> (\<forall>i < length (tool_calls mock_action).
          (\<forall>n m. mock_parse (tc_arguments (tool_calls mock_action ! i)) = Inl (Err n m) \<longrightarrow>
             output_value (outs ! i) =
               Str (''Error occured while performing call to tool ''
                    @ tc_name (tool_calls mock_action ! i) @ '': ''
                    @ (if n = [] then m else if m = [] then n else n @ '': '' @ m)))
        \<and> (\<forall>args. mock_parse (tc_arguments (tool_calls mock_action ! i)) = Inr args
                \<and> registered mock_tools (tc_name (tool_calls mock_action ! i)) = None
                \<and> inherited mock_tools (tc_name (tool_calls mock_action ! i)) = None \<longrightarrow>
             output_value (outs ! i) =
               Str (''Error occured while performing call to tool ''
                    @ tc_name (tool_calls mock_action ! i)
                    @ '': TypeError: tools[tool_call.function.name] is not a function''))
        \<and> (\<forall>args h res w''. mock_parse (tc_arguments (tool_calls mock_action ! i)) = Inr args
                \<and> registered mock_tools (tc_name (tool_calls mock_action ! i)) = Some h
                \<and> h args (world (snd (call_tools mock_parse mock_tools (take i (tool_calls mock_action))
                            (start_state\<lparr>world := 0,
                               calls := calls start_state @ [RunsRetrieve (Some ''thread_1'') (run_id (mock_run ''queued''))]\<rparr>))))
                    = (res, w'') \<longrightarrow>
             output_value (outs ! i) =
               (case res of
                  Inr v \<Rightarrow> Str v
                | Inl (Err n m) \<Rightarrow>
                    Str (''Error occured while performing call to tool ''
                         @ tc_name (tool_calls mock_action ! i) @ '': ''
                         @ (if n = [] then m else if m = [] then n else n @ '': '' @ m))))
        \<and> (\<forall>args f res w''. mock_parse (tc_arguments (tool_calls mock_action ! i)) = Inr args
                \<and> registered mock_tools (tc_name (tool_calls mock_action ! i)) = None
                \<and> inherited mock_tools (tc_name (tool_calls mock_action ! i)) = Some f
                \<and> f args (world (snd (call_tools mock_parse mock_tools (take i (tool_calls mock_action))
                            (start_state\<lparr>world := 0,
                               calls := calls start_state @ [RunsRetrieve (Some ''thread_1'') (run_id (mock_run ''queued''))]\<rparr>))))
                    = (res, w'') \<longrightarrow>
             output_value (outs ! i) =
               (case res of
                  Inr v \<Rightarrow> v
                | Inl (Err n m) \<Rightarrow>
                    Str (''Error occured while performing call to tool ''
                         @ tc_name (tool_calls mock_action ! i) @ '': ''
                         @ (if n = [] then m else if m = [] then n else n @ '': '' @ m)))))" ..
  note a = k[THEN conjunct1]
  note b = k[THEN conjunct2, THEN conjunct1]
  note c = k[THEN conjunct2, THEN conjunct2, THEN conjunct1]
  note d = k[THEN conjunct2, THEN conjunct2, THEN conjunct2, THEN conjunct2]
  have a': "calls (snd (poll_step ?cl mock_parse mock_tools (Some ''thread_1'') (mock_run ''queued'')
                      start_state)) =
          [RunsRetrieve (Some ''thread_1'') ''run_1'',
           ToolInvoked ''incrementPoints'' (JObj []),
           ToolInvoked ''getLeaderboard'' (JObj []),
           SubmitToolOutputs (Some ''thread_1'') ''run_1'' outs]"
    using a by (simp add: invocations_def mock_action_def mock_parse_def mock_tools_def lookup_def
                  start_state_def mock_run_def action_run_def)
  have b': "length outs = 3"
    using b len by simp
  have c': "map tool_call_id outs = [''call_1'', ''call_2'', ''call_3'']"
    using c by (simp add: mock_action_def)
  have i0: "0 < length (tool_calls mock_action)" and i1: "1 < length (tool_calls mock_action)"
    and i2: "2 < length (tool_calls mock_action)"
    using len by simp_all
  have e0: "output_value (outs ! 0) =
            Str ''Error occured while performing call to tool lookupSolutions: TypeError: tools[tool_call.function.name] is not a function''"
    using d[rule_format, OF i0, THEN conjunct2, THEN conjunct1]
    by (simp add: mock_action_def mock_parse_def mock_tools_def)
  have e1: "output_value (outs ! 1) =
            Str ''Error occured while performing call to tool incrementPoints: Error: db down''"
    using d[rule_format, OF i1, THEN conjunct2, THEN conjunct2, THEN conjunct1] unfolding w1
    by (simp add: mock_action_def mock_parse_def mock_tools_def new_Error_def)
  have e2: "output_value (outs ! 2) = Str ''board''"
    using d[rule_format, OF i2, THEN conjunct2, THEN conjunct2, THEN conjunct1] unfolding w2
    by (simp add: mock_action_def mock_parse_def mock_tools_def)
  show ?thesis
    by (intro conjI exI[of _ outs])
      (fact h2, fact h3, fact h4, fact len, fact a', fact b', fact c', fact e0, fact e1, fact e2)
qed

theorem submit_failure_repolls_witness:
  "\<exists>outs outs'.
     calls (snd (poll_loop (Suc (Suc 0))
                   (mock_client action_run (Inl (new_Error ''Connection error.'')) [])
                   mock_parse mock_tools (Some ''thread_1'') (mock_run ''queued'') start_state)) =
       [RunsRetrieve (Some ''thread_1'') ''run_1'',
        ToolInvoked ''incrementPoints'' (JObj []),
        ToolInvoked ''getLeaderboard'' (JObj []),
        SubmitToolOutputs (Some ''thread_1'') ''run_1'' outs,
        RunsRetrieve (Some ''thread_1'') ''run_1'',
        ToolInvoked ''incrementPoints'' (JObj []),
        ToolInvoked ''getLeaderboard'' (JObj []),
        SubmitToolOutputs (Some ''thread_1'') ''run_1'' outs']"
proof -
  let ?cl = "mock_client action_run (Inl (new_Error ''Connection error.'')) []"
  let ?s1 = "start_state\<lparr>world := 0,
               calls := calls start_state
                 @ [RunsRetrieve (Some ''thread_1'') (run_id (mock_run ''queued''))]\<rparr>"
  obtain outs t where h5: "call_tools mock_parse mock_tools (tool_calls mock_action) ?s1 = (outs, t)"
    by (cases "call_tools mock_parse mock_tools (tool_calls mock_action) ?s1")
  have h1: "runs_retrieve ?cl (Some ''thread_1'') (run_id (mock_run ''queued'')) (world start_state)
              = (Inr action_run, 0)"
    by (simp add: mock_client_def start_state_def)
  have h2: "status action_run = ''requires_action''"
    by (simp add: action_run_def mock_run_def)
  have h3: "required_action action_run = Some mock_action"
    by (simp add: action_run_def)
  have h4: "ra_type mock_action = ''submit_tool_outputs''"
    by (simp add: mock_action_def)
  have h6: "runs_submitToolOutputs ?cl (Some ''thread_1'') (run_id action_run) outs (world t)
              = (Inl (new_Error ''Connection error.''), world t)"
    by (simp add: mock_client_def)
  have h7: "runs_retrieve ?cl (Some ''thread_1'') (run_id action_run) (world t)
              = (Inr action_run, world t)"
    by (simp add: mock_client_def)
  obtain outs' r' t' where
    l: "poll_loop (Suc (Suc 0)) ?cl mock_parse mock_tools (Some ''thread_1'') (mock_run ''queued'')
          start_state = poll_loop 0 ?cl mock_parse mock_tools (Some ''thread_1'') r' t'"
    and c: "calls t' =
              calls start_state @ [RunsRetrieve (Some ''thread_1'') (run_id (mock_run ''queued''))]
                @ invocations mock_parse mock_tools (tool_calls mock_action)
                @ [SubmitToolOutputs (Some ''thread_1'') (run_id action_run) outs]
                @ [RunsRetrieve (Some ''thread_1'') (run_id action_run)]
                @ invocations mock_parse mock_tools (tool_calls mock_action)
                @ [SubmitToolOutputs (Some ''thread_1'') (run_id action_run) outs']"
    using submit_failure_repolls[OF h1 h2 h3 h4 h5 h6 h7 h2 h3, of 0] by blast
  have "calls (snd (poll_loop (Suc (Suc 0)) ?cl mock_parse mock_tools (Some ''thread_1'')
                      (mock_run ''queued'') start_state)) = calls t'"
    unfolding l by simp
  then show ?thesis
    unfolding c
    by (simp add: invocations_def mock_action_def mock_parse_def mock_tools_def lookup_def
          start_state_def mock_run_def action_run_def)
qed

section \<open>What Bot.response leaves alone\<close>

lemma unchanged_refl: "unchanged s s"
  by (simp add: unchanged_def)

lemma unchanged_trans: "unchanged s t \<Longrightarrow> unchanged t u \<Longrightarrow> unchanged s u"
  by (simp add: unchanged_def)

lemma perform_effect:
  "calls (snd (perform c f s)) = calls s @ [c] \<and> unchanged s (snd (perform c f s))"
  by (simp add: perform_def unchanged_def split: prod.splits)

lemma invocations_no_create: "ThreadsCreate \<notin> set (invocations parse tools tcs)"
  by (auto simp: invocations_def split: sum.splits option.splits)

lemma call_tools_unchanged: "unchanged s (snd (call_tools parse tools tcs s))"
  using call_tools_frame[of parse tools tcs s] by (simp add: unchanged_def)

lemma poll_step_effect:
  "\<exists>added. calls (snd (poll_step cl parse tools th r s)) = calls s @ added
      \<and> ThreadsCreate \<notin> set added \<and> unchanged s (snd (poll_step cl parse tools th r s))"
proof -
  obtain res wa where ret: "runs_retrieve cl th (run_id r) (world s) = (res, wa)"
    by (cases "runs_retrieve cl th (run_id r) (world s)")
  show ?thesis
  proof (cases res)
    case (Inl e)
    then show ?thesis using ret
      by (simp add: poll_step_def perform_def unchanged_def)
  next
    case (Inr p)
    define s1 where "s1 = s\<lparr>world := wa, calls := calls s @ [RunsRetrieve th (run_id r)]\<rparr>"
    have u1: "unchanged s s1" and c1: "calls s1 = calls s @ [RunsRetrieve th (run_id r)]"
      by (simp_all add: s1_def unchanged_def)
    have eq: "runs_retrieve cl th (run_id r) (world s) = (Inr p, wa)" using ret Inr by simp
    note st = poll_step_retrieved[OF eq, of parse tools, unfolded Let_def s1_def[symmetric]]
    have "(\<exists>ra. status p = ''requires_action'' \<and> required_action p = Some ra
              \<and> ra_type ra = ''submit_tool_outputs'')
          \<or> status p = ''completed'' \<or> snd (poll_step cl parse tools th r s) = s1"
      unfolding st by (cases "required_action p") simp_all
    then consider (act) ra where "status p = ''requires_action''" "required_action p = Some ra"
          "ra_type ra = ''submit_tool_outputs''"
      | (fin) "status p = ''completed''"
      | (other) "snd (poll_step cl parse tools th r s) = s1"
      by blast
    then show ?thesis
    proof cases
      case act
      obtain outs t where ct: "call_tools parse tools (tool_calls ra) s1 = (outs, t)"
        by (cases "call_tools parse tools (tool_calls ra) s1")
      have t: "calls t = calls s1 @ invocations parse tools (tool_calls ra)" "unchanged s1 t"
        using call_tools_calls[of parse tools "tool_calls ra" s1]
          call_tools_unchanged[of s1 parse tools "tool_calls ra"] ct by simp_all
      have "snd (poll_step cl parse tools th r s) =
          snd (perform (SubmitToolOutputs th (run_id p) outs)
                 (runs_submitToolOutputs cl th (run_id p) outs) t)"
        using st act ct by (simp split: prod.splits sum.splits)
      then show ?thesis
        using perform_effect[of "SubmitToolOutputs th (run_id p) outs"
                "runs_submitToolOutputs cl th (run_id p) outs" t] t c1 u1
          invocations_no_create[of parse tools "tool_calls ra"]
        by (auto simp: unchanged_def)
    next
      case fin
      have "snd (poll_step cl parse tools th r s) =
          snd (perform (MessagesList th) (messages_list cl th) s1)"
        using st fin by (simp split: prod.splits sum.splits)
      then show ?thesis
        using perform_effect[of "MessagesList th" "messages_list cl th" s1] c1 u1
        by (auto simp: unchanged_def)
    next
      case other
      then show ?thesis using c1 u1 by simp
    qed
  qed
qed

lemma poll_loop_effect:
  "\<exists>added. calls (snd (poll_loop n cl parse tools th r s)) = calls s @ added
      \<and> ThreadsCreate \<notin> set added \<and> unchanged s (snd (poll_loop n cl parse tools th r s))"
proof (induction n arbitrary: r s)
  case 0
  show ?case by (simp add: unchanged_refl)
next
  case (Suc n)
  obtain res t where ps: "poll_step cl parse tools th r s = (res, t)"
    by (cases "poll_step cl parse tools th r s")
  obtain added where a: "calls t = calls s @ added" "ThreadsCreate \<notin> set added" "unchanged s t"
    using poll_step_effect[of cl parse tools th r s] ps by auto
  show ?case
  proof (cases res)
    case (Continue r')
    obtain added' where b: "calls (snd (poll_loop n cl parse tools th r' t)) = calls t @ added'"
        "ThreadsCreate \<notin> set added'" "unchanged t (snd (poll_loop n cl parse tools th r' t))"
      using Suc.IH[of r' t] by auto
    have "calls (snd (poll_loop (Suc n) cl parse tools th r s)) = calls s @ (added @ added')"
      using ps Continue a b by simp
    moreover have "ThreadsCreate \<notin> set (added @ added')" using a b by simp
    moreover have "unchanged s (snd (poll_loop (Suc n) cl parse tools th r s))"
      using ps Continue a b unchanged_trans by simp
    ultimately show ?thesis by blast
  next
    case (Return v)
    then show ?thesis using ps a by auto
  next
    case (Throw e)
    then show ?thesis using ps a by auto
  qed
qed

lemma runAssistant_effect:
  "\<exists>rest. calls (snd (runAssistant n cl parse th aid tools s)) = calls s @ RunsCreate th aid # rest
      \<and> ThreadsCreate \<notin> set rest \<and> unchanged s (snd (runAssistant n cl parse th aid tools s))"
proof -
  obtain res t where c: "perform (RunsCreate th aid) (runs_create cl th aid) s = (res, t)"
    by (cases "perform (RunsCreate th aid) (runs_create cl th aid) s")
  have t: "calls t = calls s @ [RunsCreate th aid]" "unchanged s t"
    using perform_effect[of "RunsCreate th aid" "runs_create cl th aid" s] c by simp_all
  show ?thesis
  proof (cases res)
    case (Inl e)
    then show ?thesis using c t by (simp add: runAssistant_def)
  next
    case (Inr r)
    obtain added where b: "calls (snd (poll_loop n cl parse tools th r t)) = calls t @ added"
        "ThreadsCreate \<notin> set added" "unchanged t (snd (poll_loop n cl parse tools th r t))"
      using poll_loop_effect[of n cl parse tools th r t] by auto
    then show ?thesis using c t Inr unchanged_trans by (auto simp: runAssistant_def)
  qed
qed

lemma response_state:
  "snd (response n cl parse assistants tools chatId name s) =
     (case assistants name of
        Some (Inl e) \<Rightarrow> s
      | a \<Rightarrow> snd (runAssistant n cl parse (threadIds s chatId)
                    (case a of Some (Inr i) \<Rightarrow> Some i | _ \<Rightarrow> None) tools s))"
  by (auto simp: response_def split: option.splits sum.splits prod.splits outcome.splits)

text \<open>
  C10. \<open>Bot.response\<close> leaves \<open>threadIds\<close> as it was, whatever the run does and
  however the call ends, and none of the calls it makes creates a thread. For a chat
  without an entry in \<open>threadIds\<close> (and an assistant whose creation has not failed) the
  first thing it does is to create a run with \<open>undefined\<close> as the thread handle.
\<close>

theorem response_keeps_threadIds:
  "threadIds (snd (response n cl parse assistants tools chatId name s)) = threadIds s
   \<and> ThreadsCreate \<notin> set (drop (length (calls s))
                              (calls (snd (response n cl parse assistants tools chatId name s))))
   \<and> take (length (calls s)) (calls (snd (response n cl parse assistants tools chatId name s)))
        = calls s
   \<and> (threadIds s chatId = None \<and> (\<forall>e. assistants name \<noteq> Some (Inl e)) \<longrightarrow>
        (\<exists>rest. calls (snd (response n cl parse assistants tools chatId name s)) =
            calls s @ RunsCreate None (case assistants name of Some (Inr i) \<Rightarrow> Some i | _ \<Rightarrow> None)
                        # rest))"
proof (cases "\<exists>e. assistants name = Some (Inl e)")
  case True
  then show ?thesis by (auto simp: response_state)
next
  case False
  define aid where "aid = (case assistants name of Some (Inr i) \<Rightarrow> Some i | _ \<Rightarrow> None)"
  have st: "snd (response n cl parse assistants tools chatId name s) =
      snd (runAssistant n cl parse (threadIds s chatId) aid tools s)"
    using False unfolding response_state aid_def by (auto split: option.splits sum.splits)
  obtain rest where r: "calls (snd (runAssistant n cl parse (threadIds s chatId) aid tools s))
        = calls s @ RunsCreate (threadIds s chatId) aid # rest"
      "ThreadsCreate \<notin> set rest"
      "unchanged s (snd (runAssistant n cl parse (threadIds s chatId) aid tools s))"
    using runAssistant_effect[of n cl parse "threadIds s chatId" aid tools s] by auto
  show ?thesis using st r False unfolding aid_def[symmetric] by (auto simp: unchanged_def)
qed

theorem response_keeps_threadIds_witness:
  "threadIds start_state ''channel_1'' = None
   \<and> (\<forall>e. mock_assistants ''moderator'' \<noteq> Some (Inl e))
   \<and> threadIds (snd (response (Suc 0) (mock_client (mock_run ''completed'') (Inr action_run) [[Text ''{}'']])
                        mock_parse mock_assistants mock_tools ''channel_1'' ''moderator'' start_state))
        = Map.empty
   \<and> (\<exists>rest. calls (snd (response (Suc 0)
                        (mock_client (mock_run ''completed'') (Inr action_run) [[Text ''{}'']])
                        mock_parse mock_assistants mock_tools ''channel_1'' ''moderator'' start_state))
        = RunsCreate None (Some ''asst_1'') # rest)"
proof -
  have h1: "threadIds start_state ''channel_1'' = None"
    by (simp add: start_state_def)
  have h2: "\<forall>e. mock_assistants ''moderator'' \<noteq> Some (Inl e)"
    by (simp add: mock_assistants_def)
  show ?thesis
    using h1 h2
      response_keeps_threadIds[of "Suc 0"
        "mock_client (mock_run ''completed'') (Inr action_run) [[Text ''{}'']]"
        mock_parse mock_assistants mock_tools "''channel_1''" "''moderator''" start_state]
    by (simp add: start_state_def mock_assistants_def)
qed

section \<open>Subscriptions and the broadcast\<close>

text \<open>
  C8. Subscribing a channel that is subscribed already: \<open>subscribe\<close> pushes the channel
  id whether or not the list holds it. After two \<open>subscribe\<close> commands in the same
  channel the list holds the id twice and the broadcast sends the brainteaser to that
  channel twice.
\<close>

theorem subscribe_twice_broadcasts_twice:
  "subscriberChannels (snd (subscribe mock_database ''channel_1''
       (snd (subscribe mock_database ''channel_1'' start_state)))) = [''channel_1'', ''channel_1'']
   \<and> sends (calls (broadcastBrainteaserOfTheDay mock_database mock_gateway
       (snd (subscribe mock_database ''channel_1''
          (snd (subscribe mock_database ''channel_1'' start_state))))))
       = [(''channel_1'', ''teaser''), (''channel_1'', ''teaser'')]"
  by (simp add: subscribe_def perform_def mock_database_def start_state_def
        broadcastBrainteaserOfTheDay_def send_to_def mock_gateway_def sends_def)

lemma subscribe_appends:
  "upsertChannel db c True (world s) = (Inr (), w) \<Longrightarrow>
   subscriberChannels (snd (subscribe db c s)) = subscriberChannels s @ [c]"
  by (simp add: subscribe_def perform_def)

section \<open>Activating a direct-message channel\<close>

lemma getLastMessages_effect:
  "activeDMChannels (snd (getLastMessages gw c n s)) = activeDMChannels s
   \<and> created_messages (calls (snd (getLastMessages gw c n s))) = created_messages (calls s)
   \<and> (\<exists>rest. calls (snd (getLastMessages gw c n s)) = calls s @ ChannelsFetch c # rest)"
  by (auto simp: getLastMessages_def perform_def created_messages_def
           split: prod.splits sum.splits option.splits)

lemma getThreadId_effect:
  "activeDMChannels (snd (getThreadId cl c s)) = activeDMChannels s
   \<and> created_messages (calls (snd (getThreadId cl c s))) = created_messages (calls s)"
  by (auto simp: getThreadId_def perform_def created_messages_def
           split: prod.splits sum.splits option.splits)

lemma addMessage_effect:
  "activeDMChannels (snd (addMessage cl c m s)) = activeDMChannels s
   \<and> (fst (addMessage cl c m s) = Inr () \<longrightarrow>
        created_messages (calls (snd (addMessage cl c m s)))
          = created_messages (calls s) @ [message_in_chat m])"
proof -
  obtain r t where g: "getThreadId cl c s = (r, t)" by (cases "getThreadId cl c s")
  have t: "activeDMChannels t = activeDMChannels s"
      "created_messages (calls t) = created_messages (calls s)"
    using getThreadId_effect[of cl c s] g by simp_all
  show ?thesis
  proof (cases r)
    case (Inl e)
    then show ?thesis using g t by (simp add: addMessage_def)
  next
    case (Inr th)
    then show ?thesis using g t
      by (auto simp: addMessage_def llm_addMessage_def perform_def created_messages_def
               split: prod.splits)
  qed
qed

lemma replay_effect:
  "activeDMChannels (snd (replay cl gw c ms s)) = activeDMChannels s
   \<and> (fst (replay cl gw c ms s) = Inr () \<longrightarrow>
        created_messages (calls (snd (replay cl gw c ms s)))
          = created_messages (calls s) @ map (\<lambda>m. message_in_chat (mock_of gw m)) ms)"
proof (induction ms arbitrary: s)
  case Nil
  show ?case by simp
next
  case (Cons m ms)
  obtain r t where a: "addMessage cl (msg_channelId m) (mock_of gw m) s = (r, t)"
    by (cases "addMessage cl (msg_channelId m) (mock_of gw m) s")
  note e = addMessage_effect[of cl "msg_channelId m" "mock_of gw m" s]
  show ?case
  proof (cases r)
    case (Inl e')
    then show ?thesis using a e by (simp add: addMessageToBotThread_def)
  next
    case (Inr u)
    then show ?thesis using a e Cons.IH[of t] by (simp add: addMessageToBotThread_def)
  qed
qed


lemma addMessage_calls: "\<exists>rest. calls (snd (addMessage cl c m s)) = calls s @ rest"
  by (auto simp: addMessage_def getThreadId_def llm_addMessage_def perform_def
           split: prod.splits sum.splits option.splits if_splits)

lemma replay_calls: "\<exists>rest. calls (snd (replay cl gw c ms s)) = calls s @ rest"
proof (induction ms arbitrary: s)
  case Nil
  show ?case by simp
next
  case (Cons m ms)
  obtain r t where a: "addMessage cl (msg_channelId m) (mock_of gw m) s = (r, t)"
    by (cases "addMessage cl (msg_channelId m) (mock_of gw m) s")
  obtain rest where t: "calls t = calls s @ rest"
    using addMessage_calls[of cl "msg_channelId m" "mock_of gw m" s] a by auto
  show ?case
  proof (cases r)
    case (Inl e)
    then show ?thesis using a t by (simp add: addMessageToBotThread_def)
  next
    case (Inr x)
    obtain rest' where "calls (snd (replay cl gw c ms t)) = calls t @ rest'"
      using Cons.IH[of t] by auto
    then show ?thesis using a t Inr by (simp add: addMessageToBotThread_def)
  qed
qed

text \<open>
  C6, as amended. Call \<open>activateDMChannel\<close> twice in sequence for a channel that is not
  active. The first call marks the channel active exactly when its replay finished without
  an error. In that case the fetched messages have been added to the thread in the
  reverse of the order in which the gateway gave them (oldest first), and the second call
  changes nothing: no fetch, no replay. Otherwise the channel is still not active and the
  second call fetches the history and replays it again. Neither call raises: the function
  has no way to.
\<close>

theorem activateDMChannel_twice:
  assumes "c \<notin> set (activeDMChannels s)"
  shows
    "(c \<in> set (activeDMChannels (activateDMChannel cl gw c s)) \<longleftrightarrow>
        fst (replay cl gw c (rev (fst (getLastMessages gw c 30 s)))
               (snd (getLastMessages gw c 30 s))) = Inr ())
     \<and> (c \<in> set (activeDMChannels (activateDMChannel cl gw c s)) \<longrightarrow>
          activateDMChannel cl gw c (activateDMChannel cl gw c s) = activateDMChannel cl gw c s
          \<and> created_messages (calls (activateDMChannel cl gw c s)) =
              created_messages (calls s)
                @ map (\<lambda>m. message_in_chat (mock_of gw m)) (rev (fst (getLastMessages gw c 30 s))))
     \<and> (c \<notin> set (activeDMChannels (activateDMChannel cl gw c s)) \<longrightarrow>
          (\<exists>rest. calls (activateDMChannel cl gw c (activateDMChannel cl gw c s)) =
             calls (activateDMChannel cl gw c s) @ ChannelsFetch c # rest))"
proof -
  obtain ms t where g: "getLastMessages gw c 30 s = (ms, t)"
    by (cases "getLastMessages gw c 30 s")
  obtain r u where p: "replay cl gw c (rev ms) t = (r, u)"
    by (cases "replay cl gw c (rev ms) t")
  have t: "activeDMChannels t = activeDMChannels s"
      "created_messages (calls t) = created_messages (calls s)"
    using getLastMessages_effect[of gw c 30 s] g by simp_all
  have u: "activeDMChannels u = activeDMChannels t"
      "r = Inr () \<longrightarrow> created_messages (calls u)
          = created_messages (calls t) @ map (\<lambda>m. message_in_chat (mock_of gw m)) (rev ms)"
    using replay_effect[of cl gw c "rev ms" t] p by simp_all
  show ?thesis
  proof (cases r)
    case (Inl e)
    then have first: "activateDMChannel cl gw c s = u"
      using assms g p by (simp add: activateDMChannel_def)
    have na: "c \<notin> set (activeDMChannels u)" using u t assms by simp
    obtain ms' t' where g': "getLastMessages gw c 30 u = (ms', t')"
      by (cases "getLastMessages gw c 30 u")
    obtain rest where t': "calls t' = calls u @ ChannelsFetch c # rest"
      using getLastMessages_effect[of gw c 30 u] g' by auto
    obtain r' u' where p': "replay cl gw c (rev ms') t' = (r', u')"
      by (cases "replay cl gw c (rev ms') t'")
    obtain rest' where u': "calls u' = calls t' @ rest'"
      using replay_calls[of cl gw c "rev ms'" t'] p' by auto
    have "calls (activateDMChannel cl gw c u) = calls u'"
      using na g' p' by (cases r') (simp_all add: activateDMChannel_def)
    then have "calls (activateDMChannel cl gw c u) = calls u @ ChannelsFetch c # (rest @ rest')"
      using t' u' by simp
    then show ?thesis using first na g p Inl by auto
  next
    case (Inr x)
    then have first: "activateDMChannel cl gw c s = u\<lparr>activeDMChannels := activeDMChannels u @ [c]\<rparr>"
      using assms g p by (simp add: activateDMChannel_def)
    have "activateDMChannel cl gw c (u\<lparr>activeDMChannels := activeDMChannels u @ [c]\<rparr>)
            = u\<lparr>activeDMChannels := activeDMChannels u @ [c]\<rparr>"
      by (simp add: activateDMChannel_def)
    then show ?thesis using first g p Inr u t by simp
  qed
qed

theorem activateDMChannel_twice_counterexample:
  "activateDMChannel flaky_client mock_gateway ''dm_1''
       (activateDMChannel flaky_client mock_gateway ''dm_1'' start_state)
     \<noteq> activateDMChannel flaky_client mock_gateway ''dm_1'' start_state
   \<and> calls (activateDMChannel flaky_client mock_gateway ''dm_1''
       (activateDMChannel flaky_client mock_gateway ''dm_1'' start_state)) =
       [ChannelsFetch ''dm_1'', MessagesFetch ''dm_1'' 30, ThreadsCreate,
        ChannelsFetch ''dm_1'', MessagesFetch ''dm_1'' 30, ThreadsCreate,
        MessagesCreate (Some ''thread_1'') (message_in_chat (mock_of mock_gateway (mock_history ! 1))),
        MessagesCreate (Some ''thread_1'') (message_in_chat (mock_of mock_gateway (mock_history ! 0)))]"
  by (simp add: activateDMChannel_def getLastMessages_def perform_def mock_gateway_def
        start_state_def mock_history_def addMessageToBotThread_def addMessage_def
        getThreadId_def truthy_def flaky_client_def llm_addMessage_def)

theorem activateDMChannel_twice_witness:
  "''dm_1'' \<notin> set (activeDMChannels start_state)
   \<and> ''dm_1'' \<in> set (activeDMChannels
         (activateDMChannel (mock_client (mock_run ''queued'') (Inr (mock_run ''queued'')) [])
            mock_gateway ''dm_1'' start_state))
   \<and> activateDMChannel (mock_client (mock_run ''queued'') (Inr (mock_run ''queued'')) [])
         mock_gateway ''dm_1''
         (activateDMChannel (mock_client (mock_run ''queued'') (Inr (mock_run ''queued'')) [])
            mock_gateway ''dm_1'' start_state)
       = activateDMChannel (mock_client (mock_run ''queued'') (Inr (mock_run ''queued'')) [])
           mock_gateway ''dm_1'' start_state
   \<and> created_messages (calls
         (activateDMChannel (mock_client (mock_run ''queued'') (Inr (mock_run ''queued'')) [])
            mock_gateway ''dm_1'' start_state))
       = [message_in_chat (mock_of mock_gateway (mock_history ! 1)),
          message_in_chat (mock_of mock_gateway (mock_history ! 0))]"
proof -
  let ?cl = "mock_client (mock_run ''queued'') (Inr (mock_run ''queued'')) []"
  have h: "''dm_1'' \<notin> set (activeDMChannels start_state)"
    by (simp add: start_state_def)
  have ok: "fst (replay ?cl mock_gateway ''dm_1''
                  (rev (fst (getLastMessages mock_gateway ''dm_1'' 30 start_state)))
                  (snd (getLastMessages mock_gateway ''dm_1'' 30 start_state))) = Inr ()"
    by (simp add: getLastMessages_def perform_def mock_gateway_def start_state_def
          mock_history_def addMessageToBotThread_def addMessage_def getThreadId_def truthy_def
          mock_client_def llm_addMessage_def)
  have ms: "fst (getLastMessages mock_gateway ''dm_1'' 30 start_state) = mock_history"
    by (simp add: getLastMessages_def perform_def mock_gateway_def)
  have c0: "created_messages (calls start_state) = []"
    by (simp add: start_state_def created_messages_def)
  have r: "rev mock_history = [mock_history ! 1, mock_history ! 0]"
    by (simp add: mock_history_def)
  show ?thesis
    using h ok activateDMChannel_twice[OF h, of ?cl mock_gateway]
    unfolding ms c0 r by simp
qed

section \<open>Overlapping calls of getThreadId\<close>

text \<open>
  A call followed at once by the answer of \<open>createThread\<close> does to the map, and
  returns, what \<open>getThreadId\<close> of the sequential model does.
\<close>

lemma getThreadId_agrees:
  assumes "handles a = threadIds s" "threads_create cl (world s) = (r, w)"
  shows "threadIds (snd (getThreadId cl chat s)) =
           handles (if truthy (threadIds s chat) then getThreadId_call c chat a
                    else getThreadId_resume c chat r (getThreadId_call c chat a))
         \<and> Some (fst (getThreadId cl chat s)) =
           results (if truthy (threadIds s chat) then getThreadId_call c chat a
                    else getThreadId_resume c chat r (getThreadId_call c chat a)) c"
  using assms
  by (cases r; cases "threadIds s chat")
     (auto simp: getThreadId_def getThreadId_call_def getThreadId_resume_def perform_def truthy_def)

lemma call_miss:
  assumes "\<not> truthy (handles s chat)" "\<not> known s c"
  shows "alloc_step (Call c chat) s =
           Some (s\<lparr>in_flight := in_flight s @ [(c, chat)], created := Suc (created s)\<rparr>)"
  using assms by (simp add: getThreadId_call_def)

lemma call_hit:
  assumes "truthy (handles s chat)" "\<not> known s c"
  shows "\<exists>h. handles s chat = Some h \<and> h \<noteq> [] \<and>
           alloc_step (Call c chat) s = Some (s\<lparr>results := (results s)(c \<mapsto> Inr h)\<rparr>)"
  using assms by (cases "handles s chat") (simp_all add: getThreadId_call_def truthy_def)

lemma known_after_miss:
  "known (s\<lparr>in_flight := in_flight s @ [(c, chat)], created := n\<rparr>) x \<longleftrightarrow> known s x \<or> x = c"
  by (auto simp: known_def)

lemma known_after_hit:
  "known (s\<lparr>results := (results s)(c \<mapsto> r)\<rparr>) x \<longleftrightarrow> known s x \<or> x = c"
  by (auto simp: known_def)

lemma concurrent_calls:
  assumes "\<not> truthy (handles s chat)" "distinct cs" "\<forall>x\<in>set cs. \<not> known s x"
  shows "alloc_run (map (\<lambda>x. Call x chat) cs) s =
           Some (s\<lparr>in_flight := in_flight s @ map (\<lambda>x. (x, chat)) cs,
                   created := created s + length cs\<rparr>)"
  using assms
proof (induction cs arbitrary: s)
  case Nil
  show ?case by simp
next
  case (Cons c cs)
  let ?t = "s\<lparr>in_flight := in_flight s @ [(c, chat)], created := Suc (created s)\<rparr>"
  have st: "alloc_step (Call c chat) s = Some ?t"
    using Cons.prems by (intro call_miss) simp_all
  have "alloc_run (map (\<lambda>x. Call x chat) cs) ?t =
           Some (?t\<lparr>in_flight := in_flight ?t @ map (\<lambda>x. (x, chat)) cs,
                   created := created ?t + length cs\<rparr>)"
    using Cons.prems by (intro Cons.IH) (auto simp: known_after_miss)
  then show ?case using st by simp
qed

lemma cached_calls:
  assumes "handles s chat = Some h" "h \<noteq> []" "distinct cs" "\<forall>x\<in>set cs. \<not> known s x"
  shows "\<exists>t. alloc_run (map (\<lambda>x. Call x chat) cs) s = Some t
           \<and> handles t = handles s \<and> created t = created s \<and> in_flight t = in_flight s
           \<and> (\<forall>x. results t x = (if x \<in> set cs then Some (Inr h) else results s x))"
  using assms
proof (induction cs arbitrary: s)
  case Nil
  show ?case by simp
next
  case (Cons c cs)
  let ?t = "s\<lparr>results := (results s)(c \<mapsto> Inr h)\<rparr>"
  have st: "alloc_step (Call c chat) s = Some ?t"
    using Cons.prems call_hit[of s chat c] by (auto simp: truthy_def)
  obtain u where u: "alloc_run (map (\<lambda>x. Call x chat) cs) ?t = Some u"
      "handles u = handles ?t" "created u = created ?t" "in_flight u = in_flight ?t"
      "\<forall>x. results u x = (if x \<in> set cs then Some (Inr h) else results ?t x)"
    using Cons.IH[of ?t] Cons.prems by (auto simp: known_after_hit)
  show ?case using st u by auto
qed

lemma settle_own:
  assumes "map_of (in_flight t) x = Some chat"
  shows "alloc_step (CreateThreadSettles x (Inr h)) t =
           Some (t\<lparr>handles := (handles t)(chat \<mapsto> h),
                   in_flight := filter (\<lambda>p. fst p \<noteq> x) (in_flight t),
                   results := (results t)(x \<mapsto> Inr h)\<rparr>)"
  using assms by (simp add: getThreadId_resume_def)

text \<open>
  C3, as amended. Take calls of \<open>getThreadId\<close> for a chat with no usable handle stored.
  Calls that all start before any \<open>createThread\<close> has been answered make one
  \<open>createThread\<close> request each, N requests for N calls, and each call, when its own
  request is fulfilled, stores and returns the handle of that request. If instead the first
  call is finished, with a non-empty handle, before the others start, there is one request
  and every call returns that handle.
\<close>

theorem getThreadId_allocations:
  assumes "\<not> truthy (handles s chat)" "distinct (c # cs)" "\<forall>x\<in>set (c # cs). \<not> known s x"
  shows
    "(\<exists>t. alloc_run (map (\<lambda>x. Call x chat) (c # cs)) s = Some t
          \<and> created t = created s + length (c # cs)
          \<and> (\<forall>x\<in>set (c # cs). (x, chat) \<in> set (in_flight t)))
     \<and> (\<forall>t x h. map_of (in_flight t) x = Some chat \<longrightarrow>
          (\<exists>u. alloc_step (CreateThreadSettles x (Inr h)) t = Some u
               \<and> results u x = Some (Inr h) \<and> handles u chat = Some h))
     \<and> (\<forall>h. h \<noteq> [] \<longrightarrow>
          (\<exists>t. alloc_run (Call c chat # CreateThreadSettles c (Inr h) # map (\<lambda>x. Call x chat) cs) s
                  = Some t
               \<and> created t = Suc (created s)
               \<and> (\<forall>x\<in>set (c # cs). results t x = Some (Inr h))
               \<and> handles t chat = Some h))"
proof (intro conjI allI impI)
  show "\<exists>t. alloc_run (map (\<lambda>x. Call x chat) (c # cs)) s = Some t
          \<and> created t = created s + length (c # cs)
          \<and> (\<forall>x\<in>set (c # cs). (x, chat) \<in> set (in_flight t))"
    using concurrent_calls[OF assms] by auto
next
  fix t :: alloc and x :: nat and h :: string
  assume "map_of (in_flight t) x = Some chat"
  then show "\<exists>u. alloc_step (CreateThreadSettles x (Inr h)) t = Some u
               \<and> results u x = Some (Inr h) \<and> handles u chat = Some h"
    using settle_own[of t x chat h] by simp
next
  fix h :: string
  assume h: "h \<noteq> []"
  let ?a = "s\<lparr>in_flight := in_flight s @ [(c, chat)], created := Suc (created s)\<rparr>"
  have a: "alloc_step (Call c chat) s = Some ?a"
    using assms by (intro call_miss) simp_all
  have nin: "c \<notin> fst ` set (in_flight s)" using assms(3) by (auto simp: known_def)
  then have m: "map_of (in_flight ?a) c = Some chat"
    by (simp add: map_of_eq_None_iff[THEN iffD2] map_add_def[symmetric] map_add_Some_iff)
  let ?b = "?a\<lparr>handles := (handles ?a)(chat \<mapsto> h),
                in_flight := filter (\<lambda>p. fst p \<noteq> c) (in_flight ?a),
                results := (results ?a)(c \<mapsto> Inr h)\<rparr>"
  have b: "alloc_step (CreateThreadSettles c (Inr h)) ?a = Some ?b"
    using settle_own[OF m] .
  have kb: "\<forall>x\<in>set cs. \<not> known ?b x"
    using assms(2,3) by (auto simp: known_def)
  obtain t where t: "alloc_run (map (\<lambda>x. Call x chat) cs) ?b = Some t"
      "handles t = handles ?b" "created t = created ?b"
      "\<forall>x. results t x = (if x \<in> set cs then Some (Inr h) else results ?b x)"
    using cached_calls[of ?b chat h cs] h kb assms(2) by auto
  show "\<exists>t. alloc_run (Call c chat # CreateThreadSettles c (Inr h) # map (\<lambda>x. Call x chat) cs) s
                  = Some t
               \<and> created t = Suc (created s)
               \<and> (\<forall>x\<in>set (c # cs). results t x = Some (Inr h))
               \<and> handles t chat = Some h"
    using a b t by (intro exI[of _ t]) (simp del: alloc_step.simps)
qed

theorem getThreadId_allocations_counterexample:
  "alloc_run [Call 0 ''channel_1'', Call 1 ''channel_1'',
              CreateThreadSettles 0 (Inr ''thread_a''),
              CreateThreadSettles 1 (Inr ''thread_b'')] alloc_init \<noteq> None
   \<and> created (the (alloc_run [Call 0 ''channel_1'', Call 1 ''channel_1'',
                 CreateThreadSettles 0 (Inr ''thread_a''),
                 CreateThreadSettles 1 (Inr ''thread_b'')] alloc_init)) = 2
   \<and> results (the (alloc_run [Call 0 ''channel_1'', Call 1 ''channel_1'',
                 CreateThreadSettles 0 (Inr ''thread_a''),
                 CreateThreadSettles 1 (Inr ''thread_b'')] alloc_init)) 0 = Some (Inr ''thread_a'')
   \<and> results (the (alloc_run [Call 0 ''channel_1'', Call 1 ''channel_1'',
                 CreateThreadSettles 0 (Inr ''thread_a''),
                 CreateThreadSettles 1 (Inr ''thread_b'')] alloc_init)) 1 = Some (Inr ''thread_b'')"
  by (simp add: alloc_init_def known_def getThreadId_call_def getThreadId_resume_def truthy_def)

theorem getThreadId_allocations_witness:
  "\<not> truthy (handles alloc_init ''channel_1'') \<and> distinct [0, 1, 2::nat]
   \<and> \<not> known alloc_init 0 \<and> \<not> known alloc_init 1 \<and> \<not> known alloc_init 2
   \<and> map_option created
        (alloc_run [Call 0 ''channel_1'', Call 1 ''channel_1'', Call 2 ''channel_1''] alloc_init)
       = Some 3
   \<and> map_option created
        (alloc_run [Call 0 ''channel_1'', CreateThreadSettles 0 (Inr ''thread_a''),
                    Call 1 ''channel_1'', Call 2 ''channel_1''] alloc_init) = Some 1
   \<and> map_option (\<lambda>t. (results t 0, results t 1, results t 2))
        (alloc_run [Call 0 ''channel_1'', CreateThreadSettles 0 (Inr ''thread_a''),
                    Call 1 ''channel_1'', Call 2 ''channel_1''] alloc_init)
       = Some (Some (Inr ''thread_a''), Some (Inr ''thread_a''), Some (Inr ''thread_a''))"
proof -
  have h1: "\<not> truthy (handles alloc_init ''channel_1'')"
    by (simp add: alloc_init_def truthy_def)
  have h2: "distinct (0 # [1, 2::nat])" by simp
  have h3: "\<forall>x\<in>set (0 # [1, 2]). \<not> known alloc_init x"
    by (simp add: alloc_init_def known_def)
  have c0: "created alloc_init = 0" by (simp add: alloc_init_def)
  note t = getThreadId_allocations[OF h1 h2 h3]
  have a: "map_option created
        (alloc_run [Call 0 ''channel_1'', Call 1 ''channel_1'', Call 2 ''channel_1''] alloc_init)
       = Some 3"
    using t[THEN conjunct1] c0 by (auto simp del: alloc_run.simps alloc_step.simps)
  have "''thread_a'' \<noteq> []" by simp
  then obtain u where u:
      "alloc_run (Call 0 ''channel_1'' # CreateThreadSettles 0 (Inr ''thread_a'')
                   # map (\<lambda>x. Call x ''channel_1'') [1, 2]) alloc_init = Some u"
      "created u = Suc (created alloc_init)"
      "\<forall>x\<in>set (0 # [1, 2]). results u x = Some (Inr ''thread_a'')"
    using t[THEN conjunct2, THEN conjunct2, rule_format, of "''thread_a''"] by blast
  have b: "map_option created
        (alloc_run [Call 0 ''channel_1'', CreateThreadSettles 0 (Inr ''thread_a''),
                    Call 1 ''channel_1'', Call 2 ''channel_1''] alloc_init) = Some 1"
    using u(1,2) c0 by (simp del: alloc_run.simps alloc_step.simps)
  have c: "map_option (\<lambda>t. (results t 0, results t 1, results t 2))
        (alloc_run [Call 0 ''channel_1'', CreateThreadSettles 0 (Inr ''thread_a''),
                    Call 1 ''channel_1'', Call 2 ''channel_1''] alloc_init)
       = Some (Some (Inr ''thread_a''), Some (Inr ''thread_a''), Some (Inr ''thread_a''))"
    using u(1,3) by (simp del: alloc_run.simps alloc_step.simps)
  show ?thesis using h1 h2 h3 a b c by simp
qed

lemma alloc_step_dom:
  "alloc_step e s = Some t \<Longrightarrow> dom (handles s) \<subseteq> dom (handles t)"
  by (cases e)
     (auto simp: getThreadId_call_def getThreadId_resume_def
           split: if_splits option.splits sum.splits)

lemma alloc_run_dom:
  "alloc_run es s = Some t \<Longrightarrow> dom (handles s) \<subseteq> dom (handles t)"
proof (induction es arbitrary: s)
  case Nil
  then show ?case by simp
next
  case (Cons e es)
  then obtain u where u: "alloc_step e s = Some u" "alloc_run es u = Some t"
    by (auto split: option.splits)
  show ?case using alloc_step_dom[OF u(1)] Cons.IH[OF u(2)] by blast
qed

lemma in_flight_chat: "map_of xs c = Some chat \<Longrightarrow> chat \<in> snd ` set xs"
  by (metis image_eqI map_of_SomeD snd_conv)

lemma alloc_step_stable:
  assumes "truthy (handles s chat)" "chat \<notin> snd ` set (in_flight s)" "alloc_step e s = Some t"
  shows "handles t chat = handles s chat \<and> chat \<notin> snd ` set (in_flight t)"
proof (cases e)
  case (Call c chat')
  show ?thesis
  proof (cases "chat' = chat")
    case True
    then show ?thesis using assms Call
      by (auto simp: getThreadId_call_def truthy_def split: if_splits option.splits)
  next
    case False
    then show ?thesis using assms Call
      by (auto simp: getThreadId_call_def split: if_splits option.splits)
  qed
next
  case (CreateThreadSettles c r)
  then obtain chat' where m: "map_of (in_flight s) c = Some chat'"
      and t: "t = getThreadId_resume c chat' r s"
    using assms(3) by (auto split: option.splits)
  have "chat' \<noteq> chat" using in_flight_chat[OF m] assms(2) by auto
  then show ?thesis using t assms(2)
    by (auto simp: getThreadId_resume_def split: sum.splits)
qed

lemma alloc_run_stable:
  assumes "truthy (handles s chat)" "chat \<notin> snd ` set (in_flight s)" "alloc_run es s = Some t"
  shows "handles t chat = handles s chat \<and> chat \<notin> snd ` set (in_flight t)"
  using assms
proof (induction es arbitrary: s)
  case Nil
  then show ?case by simp
next
  case (Cons e es)
  then obtain u where u: "alloc_step e s = Some u" "alloc_run es u = Some t"
    by (auto split: option.splits)
  have a: "handles u chat = handles s chat" "chat \<notin> snd ` set (in_flight u)"
    using alloc_step_stable[OF Cons.prems(1,2) u(1)] by simp_all
  then have "truthy (handles u chat)" using Cons.prems(1) by simp
  then show ?case using Cons.IH[OF _ a(2) u(2)] a by simp
qed

lemma alloc_step_replaces:
  assumes "alloc_step e s = Some t" "handles s chat = Some h" "handles t chat \<noteq> Some h"
  shows "\<exists>c h'. e = CreateThreadSettles c (Inr h') \<and> map_of (in_flight s) c = Some chat"
proof (cases e)
  case (Call c chat')
  then show ?thesis using assms
    by (auto simp: getThreadId_call_def split: if_splits option.splits)
next
  case (CreateThreadSettles c r)
  then obtain chat' where m: "map_of (in_flight s) c = Some chat'"
      and t: "t = getThreadId_resume c chat' r s"
    using assms(1) by (auto split: option.splits)
  show ?thesis
  proof (cases r)
    case (Inl e')
    then show ?thesis using t assms by (simp add: getThreadId_resume_def)
  next
    case (Inr h')
    then have "chat' = chat" using t assms by (auto simp: getThreadId_resume_def split: if_splits)
    then show ?thesis using CreateThreadSettles Inr m by simp
  qed
qed

text \<open>
  C7, as amended. No step removes an entry: the keys of the map only grow. A call that
  starts while a non-empty handle is stored for its chat returns that handle, makes no
  \<open>createThread\<close> request and leaves the map as it is. Once a non-empty handle is
  stored and no call for that chat is waiting for \<open>createThread\<close>, the entry stays the
  same for ever. An entry is replaced only when a \<open>createThread\<close> that was already
  awaited for that chat is fulfilled.
\<close>

theorem threadIds_only_grows:
  "(alloc_run es s = Some t \<longrightarrow> dom (handles s) \<subseteq> dom (handles t))
   \<and> (truthy (handles s chat) \<and> \<not> known s c \<longrightarrow>
        (\<exists>h. handles s chat = Some h
            \<and> alloc_step (Call c chat) s = Some (s\<lparr>results := (results s)(c \<mapsto> Inr h)\<rparr>)))
   \<and> (truthy (handles s chat) \<and> chat \<notin> snd ` set (in_flight s) \<and> alloc_run es s = Some t \<longrightarrow>
        handles t chat = handles s chat \<and> chat \<notin> snd ` set (in_flight t))
   \<and> (alloc_step e s = Some u \<and> handles s chat = Some h \<and> handles u chat \<noteq> Some h \<longrightarrow>
        (\<exists>c' h'. e = CreateThreadSettles c' (Inr h') \<and> map_of (in_flight s) c' = Some chat))"
  using alloc_run_dom[of es s t] call_hit[of s chat c] alloc_run_stable[of s chat es t]
    alloc_step_replaces[of e s u chat h]
  by blast

theorem threadIds_only_grows_counterexample:
  "alloc_run [Call 0 ''channel_1'', Call 1 ''channel_1'',
              CreateThreadSettles 0 (Inr ''thread_a'')] alloc_init \<noteq> None
   \<and> handles (the (alloc_run [Call 0 ''channel_1'', Call 1 ''channel_1'',
                 CreateThreadSettles 0 (Inr ''thread_a'')] alloc_init)) ''channel_1''
       = Some ''thread_a''
   \<and> alloc_step (CreateThreadSettles 1 (Inr ''thread_b''))
        (the (alloc_run [Call 0 ''channel_1'', Call 1 ''channel_1'',
                 CreateThreadSettles 0 (Inr ''thread_a'')] alloc_init)) \<noteq> None
   \<and> handles (the (alloc_step (CreateThreadSettles 1 (Inr ''thread_b''))
        (the (alloc_run [Call 0 ''channel_1'', Call 1 ''channel_1'',
                 CreateThreadSettles 0 (Inr ''thread_a'')] alloc_init)))) ''channel_1''
       = Some ''thread_b''
   \<and> alloc_run [Call 0 ''channel_1'', CreateThreadSettles 0 (Inr ''''),
                 Call 1 ''channel_1''] alloc_init \<noteq> None
   \<and> created (the (alloc_run [Call 0 ''channel_1'', CreateThreadSettles 0 (Inr ''''),
                 Call 1 ''channel_1''] alloc_init)) = 2"
  by (simp add: alloc_init_def known_def getThreadId_call_def getThreadId_resume_def truthy_def)

theorem threadIds_only_grows_witness:
  "truthy (handles stored_state ''channel_1'')
   \<and> ''channel_1'' \<notin> snd ` set (in_flight stored_state)
   \<and> map_option (\<lambda>t. (handles t ''channel_1'', created t, results t 5))
        (alloc_run [Call 5 ''channel_1'', Call 6 ''channel_2'',
                    CreateThreadSettles 6 (Inr ''thread_b'')] stored_state)
       = Some (Some ''thread_a'', 2, Some (Inr ''thread_a''))"
proof -
  have h: "truthy (handles stored_state ''channel_1'')"
      "''channel_1'' \<notin> snd ` set (in_flight stored_state)"
    by (simp_all add: stored_state_def truthy_def)
  obtain t where t: "alloc_run [Call 5 ''channel_1'', Call 6 ''channel_2'',
                    CreateThreadSettles 6 (Inr ''thread_b'')] stored_state = Some t"
      "created t = 2" "results t 5 = Some (Inr ''thread_a'')"
    by (simp add: stored_state_def known_def getThreadId_call_def getThreadId_resume_def
          truthy_def)
  have "handles t ''channel_1'' = handles stored_state ''channel_1''"
    using threadIds_only_grows[where s = stored_state and chat = "''channel_1''" and t = t
            and es = "[Call 5 ''channel_1'', Call 6 ''channel_2'',
                       CreateThreadSettles 6 (Inr ''thread_b'')]"] h t(1)
    by blast
  then have "handles t ''channel_1'' = Some ''thread_a''"
    by (simp add: stored_state_def)
  then show ?thesis using h t by simp
qed

section \<open>The operation queue: what every reachable state satisfies\<close>

lemma fifoI:
  assumes "\<And>n j i. n < length h \<Longrightarrow> h ! n = QStart j \<Longrightarrow> i < j \<Longrightarrow> sub ! i = sub ! j
             \<Longrightarrow> \<exists>m<n. \<exists>r. h ! m = QEnd i r"
  shows "fifo h sub"
  unfolding fifo_def using assms by blast

lemma fifoD:
  assumes "fifo h sub" "n < length h" "h ! n = QStart j" "i < j" "sub ! i = sub ! j"
  shows "\<exists>m<n. \<exists>r. h ! m = QEnd i r"
  using assms unfolding fifo_def by blast

lemma fifo_end: 
  assumes "fifo h sub"
  shows "fifo (h @ [QEnd i r]) sub"
proof (rule fifoI)
  fix n j i'
  assume a: "n < length (h @ [QEnd i r])" "(h @ [QEnd i r]) ! n = QStart j"
    and b: "i' < j" "sub ! i' = sub ! j"
  have n: "n < length h" using a by (cases "n = length h") auto
  then have hn: "h ! n = QStart j" using a by (simp add: nth_append)
  obtain m r' where m: "m < n" "h ! m = QEnd i' r'" using fifoD[OF assms n hn b] by blast
  then have "(h @ [QEnd i r]) ! m = QEnd i' r'" using n by (simp add: nth_append)
  then show "\<exists>m<n. \<exists>r'. (h @ [QEnd i r]) ! m = QEnd i' r'" using m(1) by blast
qed

lemma fifo_start:
  assumes "fifo h sub" "\<And>i. i < j \<Longrightarrow> sub ! i = sub ! j \<Longrightarrow> \<exists>r. QEnd i r \<in> set h"
  shows "fifo (h @ [QStart j]) sub"
proof (rule fifoI)
  fix n j' i
  assume a: "n < length (h @ [QStart j])" "(h @ [QStart j]) ! n = QStart j'"
    and b: "i < j'" "sub ! i = sub ! j'"
  show "\<exists>m<n. \<exists>r. (h @ [QStart j]) ! m = QEnd i r"
  proof (cases "n < length h")
    case True
    then have hn: "h ! n = QStart j'" using a by (simp add: nth_append)
    obtain m r where m: "m < n" "h ! m = QEnd i r" using fifoD[OF assms(1) True hn b] by blast
    then have "(h @ [QStart j]) ! m = QEnd i r" using True by (simp add: nth_append)
    then show ?thesis using m(1) by blast
  next
    case False
    then have n: "n = length h" using a by simp
    then have j: "j' = j" using a by simp
    obtain r where "QEnd i r \<in> set h" using assms(2)[of i] b j by blast
    then obtain m where m: "m < length h" "h ! m = QEnd i r" by (auto simp: in_set_conv_nth)
    then have "(h @ [QStart j]) ! m = QEnd i r" by (simp add: nth_append)
    then show ?thesis using m(1) n by blast
  qed
qed

lemma fifo_submit:
  assumes "fifo h sub" "\<And>j. QStart j \<in> set h \<Longrightarrow> j < length sub"
  shows "fifo h (sub @ [k])"
proof (rule fifoI)
  fix n j i
  assume a: "n < length h" "h ! n = QStart j"
    and b: "i < j" "(sub @ [k]) ! i = (sub @ [k]) ! j"
  have "QStart j \<in> set h" using nth_mem[OF a(1)] a(2) by simp
  then have j: "j < length sub" using assms(2) by blast
  then have "sub ! i = sub ! j" using b by (simp add: nth_append)
  then show "\<exists>m<n. \<exists>r. h ! m = QEnd i r" using fifoD[OF assms(1) a b(1)] by blast
qed


lemma inv_coreI:
  assumes "\<And>k q. operationQueue s k = Some q \<Longrightarrow> sorted_wrt (<) q"
    and "\<And>k q i. operationQueue s k = Some q \<Longrightarrow> i \<in> set q \<Longrightarrow>
           i < length (submitted s) \<and> submitted s ! i = k \<and> \<not> started s i"
    and "\<And>i. i < length (submitted s) \<Longrightarrow> \<not> started s i \<Longrightarrow>
           \<exists>q. operationQueue s (submitted s ! i) = Some q \<and> i \<in> set q"
    and "\<And>i. started s i \<Longrightarrow> i < length (submitted s)"
    and "\<And>i. delivered s i \<noteq> None \<Longrightarrow> \<exists>r. QEnd i r \<in> set (history s)"
    and "\<And>i. count_list (history s) (QStart i) \<le> 1"
    and "fifo (history s) (submitted s)"
  shows "inv_core s"
  unfolding inv_core_def using assms by blast

lemma core_sorted: "inv_core s \<Longrightarrow> operationQueue s k = Some q \<Longrightarrow> sorted_wrt (<) q"
  unfolding inv_core_def by blast

lemma core_queued:
  "inv_core s \<Longrightarrow> operationQueue s k = Some q \<Longrightarrow> i \<in> set q \<Longrightarrow>
     i < length (submitted s) \<and> submitted s ! i = k \<and> \<not> started s i"
  unfolding inv_core_def by blast

lemma core_covered:
  "inv_core s \<Longrightarrow> i < length (submitted s) \<Longrightarrow> \<not> started s i \<Longrightarrow>
     \<exists>q. operationQueue s (submitted s ! i) = Some q \<and> i \<in> set q"
  unfolding inv_core_def by blast

lemma core_started: "inv_core s \<Longrightarrow> started s i \<Longrightarrow> i < length (submitted s)"
  unfolding inv_core_def by blast

lemma core_delivered:
  "inv_core s \<Longrightarrow> delivered s i \<noteq> None \<Longrightarrow> \<exists>r. QEnd i r \<in> set (history s)"
  unfolding inv_core_def by blast

lemma core_once: "inv_core s \<Longrightarrow> count_list (history s) (QStart i) \<le> 1"
  unfolding inv_core_def by blast

lemma core_fifo: "inv_core s \<Longrightarrow> fifo (history s) (submitted s)"
  unfolding inv_core_def by blast

lemma core_same:
  assumes "inv_core s" "operationQueue t = operationQueue s" "submitted t = submitted s"
    "delivered t = delivered s" "history t = history s"
  shows "inv_core t"
  using assms unfolding inv_core_def started_def by simp

lemma core_settle:
  assumes c: "inv_core s"
    and t: "operationQueue t = operationQueue s" "submitted t = submitted s"
      "delivered t = (delivered s)(i \<mapsto> r)" "history t = history s @ [QEnd i r]"
    and e: "executing s i"
  shows "inv_core t"
proof (rule inv_coreI)
  have st: "\<And>j. started t j = started s j" using t(4) by (simp add: started_def)
  show "\<And>k q. operationQueue t k = Some q \<Longrightarrow> sorted_wrt (<) q"
    using core_sorted[OF c] t(1) by simp
  show "\<And>k q j. operationQueue t k = Some q \<Longrightarrow> j \<in> set q \<Longrightarrow>
           j < length (submitted t) \<and> submitted t ! j = k \<and> \<not> started t j"
    using core_queued[OF c] t(1,2) st by simp
  show "\<And>j. j < length (submitted t) \<Longrightarrow> \<not> started t j \<Longrightarrow>
           \<exists>q. operationQueue t (submitted t ! j) = Some q \<and> j \<in> set q"
    using core_covered[OF c] t(1,2) st by simp
  show "\<And>j. started t j \<Longrightarrow> j < length (submitted t)"
    using core_started[OF c] t(2) st by simp
  show "\<And>j. delivered t j \<noteq> None \<Longrightarrow> \<exists>r'. QEnd j r' \<in> set (history t)"
  proof -
    fix j assume d: "delivered t j \<noteq> None"
    show "\<exists>r'. QEnd j r' \<in> set (history t)"
    proof (cases "j = i")
      case True
      then show ?thesis using t(4) by auto
    next
      case False
      then have "delivered s j \<noteq> None" using d t(3) by simp
      then obtain r' where "QEnd j r' \<in> set (history s)" using core_delivered[OF c] by blast
      then show ?thesis using t(4) by auto
    qed
  qed
  show "\<And>j. count_list (history t) (QStart j) \<le> 1"
    using core_once[OF c] t(4) by simp
  show "fifo (history t) (submitted t)"
    using fifo_end[OF core_fifo[OF c]] t(2,4) by simp
qed

lemma core_push:
  assumes c: "inv_core s"
    and t: "operationQueue t =
              (operationQueue s)(k \<mapsto> (case operationQueue s k of None \<Rightarrow> [] | Some q \<Rightarrow> q)
                                        @ [length (submitted s)])"
      "submitted t = submitted s @ [k]" "delivered t = delivered s" "history t = history s"
  shows "inv_core t"
proof (rule inv_coreI)
  let ?n = "length (submitted s)"
  let ?q0 = "case operationQueue s k of None \<Rightarrow> [] | Some q \<Rightarrow> q"
  have st: "\<And>j. started t j = started s j" using t(4) by (simp add: started_def)
  have q0s: "sorted_wrt (<) ?q0"
    using core_sorted[OF c, of k] by (cases "operationQueue s k") simp_all
  have q0e: "\<And>j. j \<in> set ?q0 \<Longrightarrow> j < ?n \<and> submitted s ! j = k \<and> \<not> started s j"
    using core_queued[OF c, of k] by (cases "operationQueue s k") simp_all
  have nst: "\<not> started s ?n" using core_started[OF c, of ?n] by auto
  show "\<And>k' q. operationQueue t k' = Some q \<Longrightarrow> sorted_wrt (<) q"
  proof -
    fix k' q assume a: "operationQueue t k' = Some q"
    show "sorted_wrt (<) q"
    proof (cases "k' = k")
      case True
      then have "q = ?q0 @ [?n]" using a t(1) by simp
      then show ?thesis using q0s q0e by (auto simp: sorted_wrt_append)
    next
      case False
      then show ?thesis using a t(1) core_sorted[OF c, of k' q] by simp
    qed
  qed
  show "\<And>k' q j. operationQueue t k' = Some q \<Longrightarrow> j \<in> set q \<Longrightarrow>
           j < length (submitted t) \<and> submitted t ! j = k' \<and> \<not> started t j"
  proof -
    fix k' q j assume a: "operationQueue t k' = Some q" "j \<in> set q"
    show "j < length (submitted t) \<and> submitted t ! j = k' \<and> \<not> started t j"
    proof (cases "k' = k")
      case True
      then have "q = ?q0 @ [?n]" using a t(1) by simp
      then have "j \<in> set ?q0 \<or> j = ?n" using a(2) by auto
      then show ?thesis
      proof
        assume "j \<in> set ?q0"
        then show ?thesis using q0e[of j] True t(2) st by (simp add: nth_append)
      next
        assume "j = ?n"
        then show ?thesis using True t(2) st nst by simp
      qed
    next
      case False
      then have "operationQueue s k' = Some q" using a t(1) by simp
      then show ?thesis using core_queued[OF c _ a(2), of k'] t(2) st by (simp add: nth_append)
    qed
  qed
  show "\<And>j. j < length (submitted t) \<Longrightarrow> \<not> started t j \<Longrightarrow>
           \<exists>q. operationQueue t (submitted t ! j) = Some q \<and> j \<in> set q"
  proof -
    fix j assume a: "j < length (submitted t)" "\<not> started t j"
    show "\<exists>q. operationQueue t (submitted t ! j) = Some q \<and> j \<in> set q"
    proof (cases "j = ?n")
      case True
      then show ?thesis using t(1,2) by simp
    next
      case False
      then have j: "j < ?n" using a(1) t(2) by simp
      then obtain q where q: "operationQueue s (submitted s ! j) = Some q" "j \<in> set q"
        using core_covered[OF c, of j] a(2) st by blast
      have sj: "submitted t ! j = submitted s ! j" using j t(2) by (simp add: nth_append)
      show ?thesis
      proof (cases "submitted s ! j = k")
        case True
        then show ?thesis using q t(1) sj by simp
      next
        case False
        then show ?thesis using q t(1) sj by simp
      qed
    qed
  qed
  show "\<And>j. started t j \<Longrightarrow> j < length (submitted t)"
    using core_started[OF c] t(2) st by fastforce
  show "\<And>j. delivered t j \<noteq> None \<Longrightarrow> \<exists>r. QEnd j r \<in> set (history t)"
    using core_delivered[OF c] t(3,4) by simp
  show "\<And>j. count_list (history t) (QStart j) \<le> 1"
    using core_once[OF c] t(4) by simp
  show "fifo (history t) (submitted t)"
    using fifo_submit[OF core_fifo[OF c], of k] core_started[OF c] t(2,4)
    by (simp add: started_def)
qed

lemma core_start:
  assumes c: "inv_core s"
    and q: "operationQueue s k = Some (j # rest)"
    and idle: "\<And>i. executing s i \<Longrightarrow> submitted s ! i \<noteq> k"
    and t: "operationQueue t = (operationQueue s)(k \<mapsto> rest)" "submitted t = submitted s"
      "delivered t = delivered s" "history t = history s @ [QStart j]"
  shows "inv_core t"
proof (rule inv_coreI)
  have st: "\<And>i. started t i = (started s i \<or> i = j)" using t(4) by (auto simp: started_def)
  have srt: "sorted_wrt (<) (j # rest)" using core_sorted[OF c q] .
  have jq: "j < length (submitted s)" "submitted s ! j = k" "\<not> started s j"
    using core_queued[OF c q, of j] by simp_all
  have rest: "\<And>i. i \<in> set rest \<Longrightarrow> j < i" using srt by simp
  show "\<And>k' q'. operationQueue t k' = Some q' \<Longrightarrow> sorted_wrt (<) q'"
  proof -
    fix k' q' assume a: "operationQueue t k' = Some q'"
    show "sorted_wrt (<) q'"
    proof (cases "k' = k")
      case True
      then show ?thesis using a t(1) srt by simp
    next
      case False
      then show ?thesis using a t(1) core_sorted[OF c, of k' q'] by simp
    qed
  qed
  show "\<And>k' q' i. operationQueue t k' = Some q' \<Longrightarrow> i \<in> set q' \<Longrightarrow>
           i < length (submitted t) \<and> submitted t ! i = k' \<and> \<not> started t i"
  proof -
    fix k' q' i assume a: "operationQueue t k' = Some q'" "i \<in> set q'"
    show "i < length (submitted t) \<and> submitted t ! i = k' \<and> \<not> started t i"
    proof (cases "k' = k")
      case True
      then have i: "i \<in> set rest" using a t(1) by simp
      then have "i \<noteq> j" using rest[of i] by simp
      then show ?thesis using core_queued[OF c q, of i] i True t(2) st by simp
    next
      case False
      then have o: "operationQueue s k' = Some q'" using a t(1) by simp
      have "submitted s ! i = k'" using core_queued[OF c o a(2)] by simp
      then have "i \<noteq> j" using jq(2) False by auto
      then show ?thesis using core_queued[OF c o a(2)] t(2) st by simp
    qed
  qed
  show "\<And>i. i < length (submitted t) \<Longrightarrow> \<not> started t i \<Longrightarrow>
           \<exists>q'. operationQueue t (submitted t ! i) = Some q' \<and> i \<in> set q'"
  proof -
    fix i assume a: "i < length (submitted t)" "\<not> started t i"
    then have i: "i < length (submitted s)" "\<not> started s i" "i \<noteq> j" using t(2) st by simp_all
    obtain q' where q': "operationQueue s (submitted s ! i) = Some q'" "i \<in> set q'"
      using core_covered[OF c i(1,2)] by blast
    show "\<exists>q'. operationQueue t (submitted t ! i) = Some q' \<and> i \<in> set q'"
    proof (cases "submitted s ! i = k")
      case True
      then have "q' = j # rest" using q' q by simp
      then have "i \<in> set rest" using q'(2) i(3) by simp
      then show ?thesis using True t(1,2) by simp
    next
      case False
      then show ?thesis using q' t(1,2) by simp
    qed
  qed
  show "\<And>i. started t i \<Longrightarrow> i < length (submitted t)"
    using core_started[OF c] jq(1) t(2) st by auto
  show "\<And>i. delivered t i \<noteq> None \<Longrightarrow> \<exists>r. QEnd i r \<in> set (history t)"
  proof -
    fix i assume "delivered t i \<noteq> None"
    then obtain r where "QEnd i r \<in> set (history s)" using core_delivered[OF c, of i] t(3) by auto
    then show "\<exists>r. QEnd i r \<in> set (history t)" using t(4) by auto
  qed
  show "\<And>i. count_list (history t) (QStart i) \<le> 1"
  proof -
    fix i
    show "count_list (history t) (QStart i) \<le> 1"
    proof (cases "i = j")
      case True
      have "QStart j \<notin> set (history s)" using jq(3) by (simp add: started_def)
      then have "count_list (history s) (QStart j) = 0" by (simp add: count_list_0_iff)
      then show ?thesis using True t(4) by simp
    next
      case False
      then show ?thesis using core_once[OF c, of i] t(4) by simp
    qed
  qed
  show "fifo (history t) (submitted t)"
    unfolding t(2,4)
  proof (rule fifo_start[OF core_fifo[OF c]])
    fix i assume a: "i < j" "submitted s ! i = submitted s ! j"
    have il: "i < length (submitted s)" using a(1) jq(1) by simp
    have "started s i"
    proof (rule ccontr)
      assume "\<not> started s i"
      then obtain q' where "operationQueue s (submitted s ! i) = Some q'" "i \<in> set q'"
        using core_covered[OF c il] by blast
      then have "i \<in> set (j # rest)" using a(2) jq(2) q by simp
      then show False using a(1) rest[of i] by auto
    qed
    moreover have "\<not> executing s i" using idle[of i] a(2) jq(2) by auto
    ultimately have "delivered s i \<noteq> None" by (simp add: executing_def)
    then show "\<exists>r. QEnd i r \<in> set (history s)" using core_delivered[OF c] by blast
  qed
qed


lemma inv_workersI:
  assumes "\<And>i. executing s i \<Longrightarrow> \<exists>w. workers s w = Some (submitted s ! i, Awaiting i)"
    and "\<And>w k st. workers s w = Some (k, st) \<Longrightarrow> processingPromise s k = Some w \<and> w < next_worker s"
  shows "inv_workers s"
  unfolding inv_workers_def using assms by blast

lemma wk_exec:
  "inv_workers s \<Longrightarrow> executing s i \<Longrightarrow> \<exists>w. workers s w = Some (submitted s ! i, Awaiting i)"
  unfolding inv_workers_def by blast

lemma wk_owner:
  "inv_workers s \<Longrightarrow> workers s w = Some (k, st) \<Longrightarrow>
     processingPromise s k = Some w \<and> w < next_worker s"
  unfolding inv_workers_def by blast

lemma worker_loop_start:
  "operationQueue s k = Some (j # rest) \<Longrightarrow>
   worker_loop w k s =
     s\<lparr>operationQueue := (operationQueue s)(k \<mapsto> rest),
       workers := (workers s)(w \<mapsto> (k, Awaiting j)),
       history := history s @ [QStart j]\<rparr>"
  by (simp add: worker_loop_def)

lemma worker_loop_other:
  "operationQueue s k = None \<or> operationQueue s k = Some [] \<Longrightarrow>
   \<exists>st. worker_loop w k s = s\<lparr>workers := (workers s)(w \<mapsto> (k, st))\<rparr>"
  by (auto simp: worker_loop_def)

lemma worker_loop_cases:
  obtains (start) j rest where "operationQueue s k = Some (j # rest)"
  | (other) "operationQueue s k = None \<or> operationQueue s k = Some []"
proof (cases "operationQueue s k")
  case None
  then show ?thesis using other by simp
next
  case (Some q)
  then show ?thesis using start other by (cases q) simp_all
qed

lemma worker_loop_kept:
  "processingPromise (worker_loop w k s) = processingPromise s
   \<and> next_worker (worker_loop w k s) = next_worker s
   \<and> submitted (worker_loop w k s) = submitted s
   \<and> delivered (worker_loop w k s) = delivered s
   \<and> (\<exists>st. workers (worker_loop w k s) = (workers s)(w \<mapsto> (k, st)))"
  by (auto simp: worker_loop_def split: option.splits list.splits)

lemma worker_loop_core:
  assumes c: "inv_core s" and idle: "\<And>i. executing s i \<Longrightarrow> submitted s ! i \<noteq> k"
  shows "inv_core (worker_loop w k s)"
proof (cases rule: worker_loop_cases[of s k])
  case (start j rest)
  show ?thesis
    by (rule core_start[OF c start idle]) (simp_all add: worker_loop_start[OF start])
next
  case other
  then obtain st where "worker_loop w k s = s\<lparr>workers := (workers s)(w \<mapsto> (k, st))\<rparr>"
    using worker_loop_other[of s k w] by blast
  then show ?thesis using core_same[OF c, of "worker_loop w k s"] by simp
qed

lemma worker_loop_exec:
  assumes c: "inv_core s" and e: "executing (worker_loop w k s) i"
  shows "executing s i
         \<or> (workers (worker_loop w k s) w = Some (k, Awaiting i) \<and> submitted s ! i = k)"
proof (cases rule: worker_loop_cases[of s k])
  case (start j rest)
  note eq = worker_loop_start[OF start, of w]
  show ?thesis
  proof (cases "i = j")
    case True
    have "submitted s ! j = k" using core_queued[OF c start, of j] by simp
    then show ?thesis using True eq by simp
  next
    case False
    then show ?thesis using e eq by (auto simp: executing_def started_def)
  qed
next
  case other
  then obtain st where "worker_loop w k s = s\<lparr>workers := (workers s)(w \<mapsto> (k, st))\<rparr>"
    using worker_loop_other[of s k w] by blast
  then show ?thesis using e by (simp add: executing_def started_def)
qed

lemma idle_key:
  assumes "inv_workers s" "processingPromise s k = None" "executing s i"
  shows "submitted s ! i \<noteq> k"
proof
  assume "submitted s ! i = k"
  then obtain w where "workers s w = Some (k, Awaiting i)" using wk_exec[OF assms(1,3)] by auto
  then show False using wk_owner[OF assms(1)] assms(2) by fastforce
qed

lemma settled_key:
  assumes "inv_workers s" "workers s w = Some (k, Awaiting i0)" "delivered s i0 \<noteq> None"
    "executing s i"
  shows "submitted s ! i \<noteq> k"
proof
  assume "submitted s ! i = k"
  then obtain w' where w': "workers s w' = Some (k, Awaiting i)"
    using wk_exec[OF assms(1,4)] by auto
  have "processingPromise s k = Some w'" "processingPromise s k = Some w"
    using wk_owner[OF assms(1) w'] wk_owner[OF assms(1) assms(2)] by simp_all
  then have "w' = w" by simp
  then have "i = i0" using w' assms(2) by simp
  then show False using assms(3,4) by (simp add: executing_def)
qed

lemma inv_processQueue:
  assumes "queue_inv s"
  shows "queue_inv (processQueue k s)"
proof (cases "processingPromise s k")
  case (Some w)
  then show ?thesis using assms by (simp add: processQueue_def)
next
  case None
  have c: "inv_core s" and v: "inv_workers s" using assms by (simp_all add: queue_inv_def)
  let ?w = "next_worker s"
  let ?a = "s\<lparr>next_worker := Suc ?w\<rparr>"
  let ?b = "worker_loop ?w k ?a"
  let ?t = "?b\<lparr>processingPromise := (processingPromise ?b)(k \<mapsto> ?w)\<rparr>"
  have t: "processQueue k s = ?t" using None by (simp add: processQueue_def Let_def)
  have ca: "inv_core ?a" using core_same[OF c, of ?a] by simp
  have ea: "\<And>i. executing ?a i = executing s i" by (simp add: executing_def started_def)
  have idle: "\<And>i. executing ?a i \<Longrightarrow> submitted ?a ! i \<noteq> k"
    using idle_key[OF v None] ea by simp
  have cb: "inv_core ?b" using worker_loop_core[OF ca idle] .
  have ct: "inv_core ?t" using core_same[OF cb, of ?t] by simp
  obtain st where kept: "processingPromise ?b = processingPromise s" "next_worker ?b = Suc ?w"
      "submitted ?b = submitted s" "workers ?b = (workers s)(?w \<mapsto> (k, st))"
    using worker_loop_kept[of ?w k ?a] by auto
  have "inv_workers ?t"
  proof (rule inv_workersI)
    fix i assume "executing ?t i"
    then have e: "executing ?b i" by (simp add: executing_def started_def)
    from worker_loop_exec[OF ca e]
    show "\<exists>w. workers ?t w = Some (submitted ?t ! i, Awaiting i)"
    proof
      assume "executing ?a i"
      then have "executing s i" using ea by simp
      then obtain w' where w': "workers s w' = Some (submitted s ! i, Awaiting i)"
        using wk_exec[OF v] by blast
      then have "w' < ?w" using wk_owner[OF v w'] by simp
      then have "workers ?t w' = Some (submitted ?t ! i, Awaiting i)" using w' kept by simp
      then show ?thesis by blast
    next
      assume "workers ?b ?w = Some (k, Awaiting i) \<and> submitted ?a ! i = k"
      then have "workers ?t ?w = Some (submitted ?t ! i, Awaiting i)" using kept(3) by simp
      then show ?thesis by blast
    qed
  next
    fix w' k' st' assume a: "workers ?t w' = Some (k', st')"
    show "processingPromise ?t k' = Some w' \<and> w' < next_worker ?t"
    proof (cases "w' = ?w")
      case True
      then have "k' = k" using a kept(4) by simp
      then show ?thesis using True kept(2) by simp
    next
      case False
      then have o: "workers s w' = Some (k', st')" using a kept(4) by simp
      have p: "processingPromise s k' = Some w'" "w' < ?w" using wk_owner[OF v o] by simp_all
      then have "k' \<noteq> k" using None by auto
      then show ?thesis using p kept(1,2) by simp
    qed
  qed
  then show ?thesis using ct t by (simp add: queue_inv_def)
qed

lemma inv_enqueue:
  assumes "queue_inv s"
  shows "queue_inv (enqueueOperation k s)"
proof -
  have c: "inv_core s" and v: "inv_workers s" using assms by (simp_all add: queue_inv_def)
  let ?a = "s\<lparr>operationQueue :=
            (operationQueue s)(k \<mapsto> (case operationQueue s k of None \<Rightarrow> [] | Some q \<Rightarrow> q)
                                      @ [length (submitted s)]),
          submitted := submitted s @ [k]\<rparr>"
  have ca: "inv_core ?a" by (rule core_push[OF c]) simp_all
  have ea: "\<And>i. executing ?a i = executing s i" by (simp add: executing_def started_def)
  have "inv_workers ?a"
  proof (rule inv_workersI)
    fix i assume "executing ?a i"
    then have e: "executing s i" using ea by simp
    then have "i < length (submitted s)" using core_started[OF c, of i] by (simp add: executing_def)
    then have "submitted ?a ! i = submitted s ! i" by (simp add: nth_append)
    then show "\<exists>w. workers ?a w = Some (submitted ?a ! i, Awaiting i)"
      using wk_exec[OF v e] by simp
  next
    fix w k' st assume "workers ?a w = Some (k', st)"
    then show "processingPromise ?a k' = Some w \<and> w < next_worker ?a"
      using wk_owner[OF v, of w k' st] by simp
  qed
  then have "queue_inv ?a" using ca by (simp add: queue_inv_def)
  then show ?thesis using inv_processQueue[of ?a k] by (simp add: enqueueOperation_def)
qed

lemma inv_settle:
  assumes "queue_inv s" "executing s i"
  shows "queue_inv (s\<lparr>delivered := (delivered s)(i \<mapsto> r), history := history s @ [QEnd i r]\<rparr>)"
proof -
  have c: "inv_core s" and v: "inv_workers s" using assms by (simp_all add: queue_inv_def)
  let ?t = "s\<lparr>delivered := (delivered s)(i \<mapsto> r), history := history s @ [QEnd i r]\<rparr>"
  have ct: "inv_core ?t" by (rule core_settle[OF c _ _ _ _ assms(2)]) simp_all
  have "inv_workers ?t"
  proof (rule inv_workersI)
    fix j assume "executing ?t j"
    then have "executing s j" by (auto simp: executing_def started_def split: if_splits)
    then show "\<exists>w. workers ?t w = Some (submitted ?t ! j, Awaiting j)"
      using wk_exec[OF v] by simp
  next
    fix w k st assume "workers ?t w = Some (k, st)"
    then show "processingPromise ?t k = Some w \<and> w < next_worker ?t"
      using wk_owner[OF v, of w k st] by simp
  qed
  then show ?thesis using ct by (simp add: queue_inv_def)
qed

lemma inv_resume:
  assumes "queue_inv s" "workers s w = Some (k, Awaiting i0)" "delivered s i0 \<noteq> None"
  shows "queue_inv (worker_loop w k s)"
proof -
  have c: "inv_core s" and v: "inv_workers s" using assms by (simp_all add: queue_inv_def)
  let ?t = "worker_loop w k s"
  have idle: "\<And>i. executing s i \<Longrightarrow> submitted s ! i \<noteq> k"
    using settled_key[OF v assms(2,3)] .
  have ct: "inv_core ?t" using worker_loop_core[OF c idle] .
  obtain st where kept: "processingPromise ?t = processingPromise s"
      "next_worker ?t = next_worker s" "submitted ?t = submitted s"
      "workers ?t = (workers s)(w \<mapsto> (k, st))"
    using worker_loop_kept[of w k s] by auto
  have own: "processingPromise s k = Some w" "w < next_worker s"
    using wk_owner[OF v assms(2)] by simp_all
  have "inv_workers ?t"
  proof (rule inv_workersI)
    fix i assume e: "executing ?t i"
    from worker_loop_exec[OF c e]
    show "\<exists>w'. workers ?t w' = Some (submitted ?t ! i, Awaiting i)"
    proof
      assume x: "executing s i"
      then obtain w' where w': "workers s w' = Some (submitted s ! i, Awaiting i)"
        using wk_exec[OF v] by blast
      have "w' \<noteq> w" using w' assms(2) idle[OF x] by auto
      then have "workers ?t w' = Some (submitted ?t ! i, Awaiting i)" using w' kept by simp
      then show ?thesis by blast
    next
      assume "workers ?t w = Some (k, Awaiting i) \<and> submitted s ! i = k"
      then have "workers ?t w = Some (submitted ?t ! i, Awaiting i)" using kept(3) by simp
      then show ?thesis by blast
    qed
  next
    fix w' k' st' assume a: "workers ?t w' = Some (k', st')"
    show "processingPromise ?t k' = Some w' \<and> w' < next_worker ?t"
    proof (cases "w' = w")
      case True
      then have "k' = k" using a kept(4) by simp
      then show ?thesis using True own kept(1,2) by simp
    next
      case False
      then have "workers s w' = Some (k', st')" using a kept(4) by simp
      then show ?thesis using wk_owner[OF v, of w' k' st'] kept(1,2) by simp
    qed
  qed
  then show ?thesis using ct by (simp add: queue_inv_def)
qed

lemma inv_clear:
  assumes "queue_inv s" "workers s w = Some (k, Finished)"
  shows "queue_inv (s\<lparr>processingPromise := (processingPromise s)(k := None),
                     workers := (workers s)(w := None)\<rparr>)"
proof -
  have c: "inv_core s" and v: "inv_workers s" using assms by (simp_all add: queue_inv_def)
  let ?t = "s\<lparr>processingPromise := (processingPromise s)(k := None),
              workers := (workers s)(w := None)\<rparr>"
  have ct: "inv_core ?t" using core_same[OF c, of ?t] by simp
  have own: "processingPromise s k = Some w" using wk_owner[OF v assms(2)] by simp
  have "inv_workers ?t"
  proof (rule inv_workersI)
    fix i assume "executing ?t i"
    then have "executing s i" by (simp add: executing_def started_def)
    then obtain w' where w': "workers s w' = Some (submitted s ! i, Awaiting i)"
      using wk_exec[OF v] by blast
    then have "w' \<noteq> w" using assms(2) by auto
    then have "workers ?t w' = Some (submitted ?t ! i, Awaiting i)" using w' by simp
    then show "\<exists>w'. workers ?t w' = Some (submitted ?t ! i, Awaiting i)" by blast
  next
    fix w' k' st' assume a: "workers ?t w' = Some (k', st')"
    then have n: "w' \<noteq> w" by (auto split: if_splits)
    then have o: "workers s w' = Some (k', st')" using a by simp
    have p: "processingPromise s k' = Some w'" "w' < next_worker s"
      using wk_owner[OF v o] by simp_all
    then have "k' \<noteq> k" using own n by auto
    then show "processingPromise ?t k' = Some w' \<and> w' < next_worker ?t" using p by simp
  qed
  then show ?thesis using ct by (simp add: queue_inv_def)
qed

lemma inv_init: "queue_inv queues_init"
  by (simp add: queue_inv_def inv_core_def inv_workers_def queues_init_def started_def
        executing_def fifo_def)

lemma inv_step:
  assumes "queue_inv s" "step e s = Some t"
  shows "queue_inv t"
proof (cases e)
  case (Enqueue k)
  then show ?thesis using assms inv_enqueue[of s k] by simp
next
  case (Settle i r)
  then show ?thesis using assms inv_settle[of s i r] by (simp split: if_splits)
next
  case (Resume w)
  then show ?thesis using assms inv_resume[of s w]
    by (auto split: option.splits wstatus.splits if_splits)
next
  case (Clear w)
  then show ?thesis using assms inv_clear[of s w]
    by (auto split: option.splits wstatus.splits)
qed

lemma inv_run:
  assumes "queue_inv s" "run_events es s = Some t"
  shows "queue_inv t"
  using assms
proof (induction es arbitrary: s)
  case Nil
  then show ?case by simp
next
  case (Cons e es)
  then obtain u where u: "step e s = Some u" "run_events es u = Some t"
    by (auto split: option.splits)
  show ?case using Cons.IH[OF inv_step[OF Cons.prems(1) u(1)] u(2)] .
qed

section \<open>The operation queue: order and exclusion\<close>

lemma worker_loop_history:
  "history (worker_loop w k s) = history s \<or> (\<exists>j. history (worker_loop w k s) = history s @ [QStart j])"
proof (cases rule: worker_loop_cases[of s k])
  case (start j rest)
  then show ?thesis by (simp add: worker_loop_start)
next
  case other
  then obtain st where "worker_loop w k s = s\<lparr>workers := (workers s)(w \<mapsto> (k, st))\<rparr>"
    using worker_loop_other[of s k w] by blast
  then show ?thesis by simp
qed

lemma processQueue_history:
  "history (processQueue k s) = history s \<or> (\<exists>j. history (processQueue k s) = history s @ [QStart j])"
proof (cases "processingPromise s k")
  case None
  then show ?thesis
    using worker_loop_history[of "next_worker s" k "s\<lparr>next_worker := Suc (next_worker s)\<rparr>"]
    by (simp add: processQueue_def Let_def)
next
  case (Some w)
  then show ?thesis by (simp add: processQueue_def)
qed

lemma step_history:
  assumes "step e s = Some t"
  shows "history t = history s \<or> (\<exists>j. history t = history s @ [QStart j])
         \<or> (\<exists>i r. history t = history s @ [QEnd i r] \<and> started s i)"
proof (cases e)
  case (Enqueue k)
  let ?a = "s\<lparr>operationQueue :=
            (operationQueue s)(k \<mapsto> (case operationQueue s k of None \<Rightarrow> [] | Some q \<Rightarrow> q)
                                      @ [length (submitted s)]),
          submitted := submitted s @ [k]\<rparr>"
  have teq: "t = processQueue k ?a" using assms Enqueue by (simp add: enqueueOperation_def)
  have "history ?a = history s" by simp
  then have "history (processQueue k ?a) = history s
             \<or> (\<exists>j. history (processQueue k ?a) = history s @ [QStart j])"
    using processQueue_history[of k ?a] by simp
  then show ?thesis unfolding teq by blast
next
  case (Settle i r)
  then have x: "executing s i" using assms by (simp split: if_splits)
  then have "history t = history s @ [QEnd i r]" using assms Settle by auto
  moreover have "started s i" using x by (simp add: executing_def)
  ultimately show ?thesis by blast
next
  case (Resume w)
  then obtain k where "t = worker_loop w k s"
    using assms by (auto split: option.splits wstatus.splits if_splits)
  then show ?thesis using worker_loop_history[of w k s] by auto
next
  case (Clear w)
  then have "history t = history s"
    using assms by (auto split: option.splits wstatus.splits)
  then show ?thesis by simp
qed

lemma ends_grow:
  assumes "ends_after_starts h" "\<And>i r. x = QEnd i r \<Longrightarrow> QStart i \<in> set h"
  shows "ends_after_starts (h @ [x])"
  unfolding ends_after_starts_def
proof (intro allI impI)
  fix n i r
  assume c: "n < length (h @ [x]) \<and> (h @ [x]) ! n = QEnd i r"
  show "\<exists>m<n. (h @ [x]) ! m = QStart i"
  proof (cases "n < length h")
    case True
    then have "h ! n = QEnd i r" using c by (simp add: nth_append)
    then have "\<exists>m<n. h ! m = QStart i"
      using assms(1) True unfolding ends_after_starts_def by blast
    then obtain m where m: "m < n" "h ! m = QStart i" by blast
    then have "(h @ [x]) ! m = QStart i" using True by (simp add: nth_append)
    then show ?thesis using m(1) by blast
  next
    case False
    then have n: "n = length h" using c by simp
    then have "x = QEnd i r" using c by simp
    then have "QStart i \<in> set h" using assms(2) by blast
    then obtain m where m: "m < length h" "h ! m = QStart i"
      unfolding in_set_conv_nth by blast
    then have "(h @ [x]) ! m = QStart i" by (simp add: nth_append)
    then show ?thesis using m(1) n by blast
  qed
qed

lemma ended_step:
  assumes "ends_after_starts (history s)" "step e s = Some t"
  shows "ends_after_starts (history t)"
proof -
  from step_history[OF assms(2)] consider
      (same) "history t = history s"
    | (start) j where "history t = history s @ [QStart j]"
    | (fin) i r where "history t = history s @ [QEnd i r]" "started s i"
    by blast
  then show ?thesis
  proof cases
    case same
    then show ?thesis using assms(1) by simp
  next
    case (start j)
    show ?thesis unfolding start by (rule ends_grow[OF assms(1)]) simp
  next
    case (fin i r)
    show ?thesis unfolding fin(1)
    proof (rule ends_grow[OF assms(1)])
      fix i' r' assume "QEnd i r = QEnd i' r'"
      then show "QStart i' \<in> set (history s)" using fin(2) by (simp add: started_def)
    qed
  qed
qed

lemma ended_run:
  assumes "ends_after_starts (history s)" "run_events es s = Some t"
  shows "ends_after_starts (history t)"
  using assms
proof (induction es arbitrary: s)
  case Nil
  then show ?case by simp
next
  case (Cons e es)
  then obtain u where u: "step e s = Some u" "run_events es u = Some t"
    by (auto split: option.splits)
  show ?case using Cons.IH[OF ended_step[OF Cons.prems(1) u(1)] u(2)] .
qed

lemma one_at_a_time:
  assumes "inv_workers s" "executing s i" "executing s j" "submitted s ! i = submitted s ! j"
  shows "i = j"
proof -
  obtain w where w: "workers s w = Some (submitted s ! i, Awaiting i)"
    using wk_exec[OF assms(1,2)] by blast
  obtain w' where w': "workers s w' = Some (submitted s ! i, Awaiting j)"
    using wk_exec[OF assms(1,3)] assms(4) by auto
  have "processingPromise s (submitted s ! i) = Some w"
      "processingPromise s (submitted s ! i) = Some w'"
    using wk_owner[OF assms(1) w] wk_owner[OF assms(1) w'] by simp_all
  then have "w = w'" by simp
  then show ?thesis using w w' by simp
qed

text \<open>
  C1. In every state that calls of \<open>enqueueOperation\<close> and the settling of operations
  can lead to: when an operation starts, every operation submitted earlier under the same
  key has ended before, with a result or an error; an operation ends only after its
  start and starts at most once; and no two operations of one key are executing at the
  same time. Operations of different keys do overlap: after two calls with different
  keys both operations are executing.
\<close>

theorem serialized_queue_order:
  "(run_events es queues_init = Some s \<longrightarrow>
      (\<forall>n j. n < length (history s) \<and> history s ! n = QStart j \<longrightarrow>
         (\<forall>i<j. submitted s ! i = submitted s ! j \<longrightarrow>
            (\<exists>m<n. \<exists>r. history s ! m = QEnd i r)))
      \<and> (\<forall>n i r. n < length (history s) \<and> history s ! n = QEnd i r \<longrightarrow>
            (\<exists>m<n. history s ! m = QStart i))
      \<and> (\<forall>i. count_list (history s) (QStart i) \<le> 1)
      \<and> (\<forall>i j. executing s i \<and> executing s j \<and> submitted s ! i = submitted s ! j
            \<longrightarrow> i = j))
   \<and> (case run_events [Enqueue ''thread_a'', Enqueue ''thread_b''] queues_init of
         None \<Rightarrow> False
       | Some t \<Rightarrow> executing t 0 \<and> executing t 1 \<and> submitted t ! 0 \<noteq> submitted t ! 1)"
proof (intro conjI impI)
  assume r: "run_events es queues_init = Some s"
  have i: "queue_inv s" using inv_run[OF inv_init r] .
  have e: "ends_after_starts (history s)"
    using ended_run[of queues_init es s] r
    by (simp add: ends_after_starts_def queues_init_def)
  show "\<forall>n j. n < length (history s) \<and> history s ! n = QStart j \<longrightarrow>
         (\<forall>i<j. submitted s ! i = submitted s ! j \<longrightarrow>
            (\<exists>m<n. \<exists>r. history s ! m = QEnd i r))"
    using core_fifo[of s] i unfolding queue_inv_def fifo_def by simp
  show "\<forall>n i r. n < length (history s) \<and> history s ! n = QEnd i r \<longrightarrow>
            (\<exists>m<n. history s ! m = QStart i)"
    using e unfolding ends_after_starts_def by simp
  show "\<forall>i. count_list (history s) (QStart i) \<le> 1"
    using core_once[of s] i unfolding queue_inv_def by simp
  show "\<forall>i j. executing s i \<and> executing s j \<and> submitted s ! i = submitted s ! j \<longrightarrow> i = j"
  proof (intro allI impI)
    fix a b assume "executing s a \<and> executing s b \<and> submitted s ! a = submitted s ! b"
    then show "a = b" using i one_at_a_time[of s a b] by (simp add: queue_inv_def)
  qed
next
  show "case run_events [Enqueue ''thread_a'', Enqueue ''thread_b''] queues_init of
         None \<Rightarrow> False
       | Some t \<Rightarrow> executing t 0 \<and> executing t 1 \<and> submitted t ! 0 \<noteq> submitted t ! 1"
    by (simp add: queues_init_def enqueueOperation_def processQueue_def worker_loop_def
          Let_def executing_def started_def)
qed


theorem serialized_queue_order_witness:
  "\<exists>s. run_events [Enqueue ''thread_a'', Enqueue ''thread_a'', Enqueue ''thread_b'',
                     Settle 0 (Inl (new_Error ''Run failed'')), Resume 0,
                     Settle 1 (Inr ''ok''), Resume 0, Clear 0] queues_init = Some s
      \<and> history s = [QStart 0, QStart 2, QEnd 0 (Inl (new_Error ''Run failed'')), QStart 1,
                      QEnd 1 (Inr ''ok'')]
      \<and> submitted s = [''thread_a'', ''thread_a'', ''thread_b'']
      \<and> (\<exists>m<3. \<exists>r. history s ! m = QEnd 0 r)"
proof -
  let ?tr = "[Enqueue ''thread_a'', Enqueue ''thread_a'', Enqueue ''thread_b'',
              Settle 0 (Inl (new_Error ''Run failed'')), Resume 0,
              Settle 1 (Inr ''ok''), Resume 0, Clear 0]"
  obtain s where s: "run_events ?tr queues_init = Some s"
      "history s = [QStart 0, QStart 2, QEnd 0 (Inl (new_Error ''Run failed'')), QStart 1,
                      QEnd 1 (Inr ''ok'')]"
      "submitted s = [''thread_a'', ''thread_a'', ''thread_b'']"
    by (simp add: queues_init_def enqueueOperation_def processQueue_def worker_loop_def
          Let_def executing_def started_def)
  have "3 < length (history s) \<and> history s ! 3 = QStart 1" using s(2) by simp
  moreover have "(0::nat) < 1 \<and> submitted s ! 0 = submitted s ! 1" using s(3) by simp
  ultimately have "\<exists>m<3. \<exists>r. history s ! m = QEnd 0 r"
    using serialized_queue_order[of ?tr s] s(1) by blast
  then show ?thesis using s by blast
qed

section \<open>The operation queue: a failed operation\<close>

lemma failure_is_contained:
  assumes "step (Settle i (Inl e)) s = Some t"
  shows "delivered t = (delivered s)(i \<mapsto> Inl e) \<and> workers t = workers s
         \<and> operationQueue t = operationQueue s \<and> processingPromise t = processingPromise s"
  using assms by (auto split: if_splits)

lemma worker_proceeds:
  assumes "workers s w = Some (k, Awaiting i)" "delivered s i = Some r"
    "operationQueue s k = Some (j # rest)"
  shows "\<exists>t. step (Resume w) s = Some t \<and> started t j
             \<and> workers t w = Some (k, Awaiting j) \<and> operationQueue t k = Some rest"
  using assms by (simp add: worker_loop_start started_def)

text \<open>
  C4. An operation fails; its caller, on receiving the rejection, enqueues the next
  operation for the same thread before the \<open>processQueue\<close> that started the worker has
  cleared \<open>processingPromise\<close>. The failure has reached the promise of the failed
  operation only, but the second operation stays in the queue: no worker is left, the
  stored promise is cleared, and nothing but a further \<open>enqueueOperation\<close> for the
  thread can happen in this state.
\<close>

theorem enqueue_after_failure_never_runs:
  "run_events [Enqueue ''thread_1'', Settle 0 (Inl (new_Error ''Run failed'')), Resume 0,
               Enqueue ''thread_1'', Clear 0] queues_init = Some stuck_queues
   \<and> delivered stuck_queues 0 = Some (Inl (new_Error ''Run failed''))
   \<and> delivered stuck_queues 1 = None
   \<and> operationQueue stuck_queues ''thread_1'' = Some [1]
   \<and> \<not> started stuck_queues 1
   \<and> (\<forall>i r. step (Settle i r) stuck_queues = None)
   \<and> (\<forall>w. step (Resume w) stuck_queues = None)
   \<and> (\<forall>w. step (Clear w) stuck_queues = None)"
  by (simp add: queues_init_def stuck_queues_def enqueueOperation_def processQueue_def
        worker_loop_def Let_def executing_def started_def)

end
